theory Spec2Isabelle
  imports
    Main
    "HOL-Library.Char_ord"
    "HOL-Library.List_Lexorder"
    "HOL-Library.Product_Lexorder"
    "HOL-Library.Sublist"
    "HOL-Library.Multiset"
begin

section \<open>Strings and paths\<close>

text \<open>
  A string is the list of the bytes of its UTF-8 encoding. Python compares \<open>str\<close> values
  lexicographically by code point, and UTF-8 keeps that order: it is the order of
  \<open>HOL-Library.List_Lexorder\<close> over \<open>HOL-Library.Char_ord\<close>. The characters the program
  looks for (\<open>.\<close>, \<open>/\<close>, \<open><\<close>, \<open>>\<close>, the line break, the letters of its literals) are ASCII,
  and an ASCII byte never occurs inside the encoding of another character.

  \<open>str.lower\<close> depends on the Unicode tables and is not defined here: every function that
  calls it takes it as the parameter \<open>lower\<close>, and what is proved holds for every such
  function. On a string of ASCII characters \<open>str.lower\<close> is \<open>ascii_lower\<close>, which the
  examples use, on ASCII names only.
\<close>

definition ascii_lower_char :: "char \<Rightarrow> char" where
  "ascii_lower_char c =
     (case map_of (zip ''ABCDEFGHIJKLMNOPQRSTUVWXYZ'' ''abcdefghijklmnopqrstuvwxyz'') c of
        Some l \<Rightarrow> l
      | None \<Rightarrow> c)"

definition ascii_lower :: "string \<Rightarrow> string" where
  "ascii_lower s = map ascii_lower_char s"

text \<open>\<open>str.rfind\<close> for a single character: the highest index holding it, if any.\<close>

fun rfind :: "char \<Rightarrow> string \<Rightarrow> nat option" where
  "rfind c [] = None"
| "rfind c (x # xs) =
     (case rfind c xs of
        Some i \<Rightarrow> Some (Suc i)
      | None \<Rightarrow> (if x = c then Some 0 else None))"

text \<open>\<open>sep.join(parts)\<close>.\<close>

fun join :: "string \<Rightarrow> string list \<Rightarrow> string" where
  "join sep [] = []"
| "join sep [x] = x"
| "join sep (x # y # ys) = x @ sep @ join sep (y # ys)"

text \<open>
  A \<open>pathlib\<close> path (POSIX flavour, CPython 3.9 to 3.11) is the list of its components.
  The anchor (drive and root) is the same for every path of one run, since every path is
  built from the input directory, and is left out of the list.
\<close>

type_synonym path = "string list"

datatype error =
    ValueError | IsADirectoryError | NotADirectoryError | FileNotFoundError | FileExistsError

definition path_name :: "path \<Rightarrow> string" where
  "path_name p = (if p = [] then [] else last p)"

definition path_suffix :: "path \<Rightarrow> string" where
  "path_suffix p =
     (let name = path_name p in
      case rfind (CHR ''.'') name of
        None \<Rightarrow> []
      | Some i \<Rightarrow> (if 0 < i \<and> int i < int (length name) - 1 then drop i name else []))"

definition path_stem :: "path \<Rightarrow> string" where
  "path_stem p =
     (let name = path_name p in
      case rfind (CHR ''.'') name of
        None \<Rightarrow> name
      | Some i \<Rightarrow> (if 0 < i \<and> int i < int (length name) - 1 then take i name else name))"

definition with_suffix :: "path \<Rightarrow> string \<Rightarrow> error + path" where
  "with_suffix p sfx =
     (if CHR ''/'' \<in> set sfx then Inl ValueError
      else if (sfx \<noteq> [] \<and> \<not> prefix ''.'' sfx) \<or> sfx = ''.'' then Inl ValueError
      else
        let name = path_name p in
        if name = [] then Inl ValueError
        else
          let old_suffix = path_suffix p;
              name' = (if old_suffix = [] then name @ sfx
                       else take (length name - length old_suffix) name @ sfx)
          in Inr (butlast p @ [name']))"

definition relative_to :: "path \<Rightarrow> path \<Rightarrow> error + path" where
  "relative_to p other =
     (if take (length other) p \<noteq> other then Inl ValueError
      else Inr (drop (length other) p))"

definition is_relative_to :: "path \<Rightarrow> path \<Rightarrow> bool" where
  "is_relative_to p other = (case relative_to p other of Inl e \<Rightarrow> False | Inr r \<Rightarrow> True)"

definition as_posix :: "path \<Rightarrow> string" where
  "as_posix p = (if p = [] then ''.'' else join ''/'' p)"

section \<open>The source tree on disk\<close>

text \<open>
  What \<open>iterdir\<close>, \<open>is_file\<close>, \<open>is_dir\<close> and \<open>read_text\<close> see: a directory holds its
  entries in the order the operating system lists them. An entry is a regular file with
  its text, a directory, or something that is neither (a dangling symbolic link, for which
  \<open>is_file\<close> and \<open>is_dir\<close> are both false and \<open>read_text\<close> raises). Symbolic links to
  directories are not modelled.
\<close>

datatype entry =
    File string string
  | Dir string "entry list"
  | Dangling string

fun entry_name :: "entry \<Rightarrow> string" where
  "entry_name (File n t) = n"
| "entry_name (Dir n es) = n"
| "entry_name (Dangling n) = n"

fun is_file :: "entry \<Rightarrow> bool" where
  "is_file (File n t) = True"
| "is_file (Dir n es) = False"
| "is_file (Dangling n) = False"

fun entry_is_dir :: "entry \<Rightarrow> bool" where
  "entry_is_dir (File n t) = False"
| "entry_is_dir (Dir n es) = True"
| "entry_is_dir (Dangling n) = False"

fun entries_of :: "entry \<Rightarrow> entry list" where
  "entries_of (File n t) = []"
| "entries_of (Dir n es) = es"
| "entries_of (Dangling n) = []"

section \<open>Nodes and the tree builder\<close>

datatype node = Node (name: string) (path: path) (is_dir: bool) (children: "node list")

text \<open>The sort key of \<open>build_tree\<close>: \<open>(p.is_file(), p.name.lower())\<close>.\<close>

definition sort_key_of :: "(string \<Rightarrow> string) \<Rightarrow> entry \<Rightarrow> bool \<times> string" where
  "sort_key_of lower p = (is_file p, lower (entry_name p))"

text \<open>
  \<open>build_tree root\<close>, with the listing of \<open>root\<close> passed along. Python's \<open>sorted\<close> is
  stable, and so is \<open>sort_key\<close>.
\<close>

function build_tree :: "(string \<Rightarrow> string) \<Rightarrow> path \<Rightarrow> entry list \<Rightarrow> node" where
  "build_tree lower root listing =
     Node (path_name root) root True
       (concat (map (\<lambda>child.
          if entry_is_dir child then
            [build_tree lower (root @ [entry_name child]) (entries_of child)]
          else if lower (path_suffix (root @ [entry_name child])) = ''.md'' then
            [Node (path_stem (root @ [entry_name child])) (root @ [entry_name child]) False []]
          else [])
        (sort_key (sort_key_of lower) listing)))"
  by pat_completeness auto
termination
proof (relation "measure (\<lambda>(lower, root, listing). size_list size listing)")
  show "wf (measure (\<lambda>(lower, root, listing). size_list size listing))"
    by simp
next
  fix lower :: "string \<Rightarrow> string" and root :: path and listing :: "entry list"
    and child :: entry
  assume mem: "child \<in> set (sort_key (sort_key_of lower) listing)" and d: "entry_is_dir child"
  from mem have "child \<in> set listing" by simp
  then have "size child \<le> size_list size listing"
    by (simp add: size_list_estimation')
  moreover from d have "size_list size (entries_of child) < size child"
    by (cases child) simp_all
  ultimately show "((lower, root @ [entry_name child], entries_of child), (lower, root, listing))
      \<in> measure (\<lambda>(lower, root, listing). size_list size listing)"
    by simp
qed

declare build_tree.simps [simp del]

text \<open>The body of the loop of \<open>build_tree\<close>: the nodes one directory entry adds.\<close>

definition child_nodes :: "(string \<Rightarrow> string) \<Rightarrow> path \<Rightarrow> entry \<Rightarrow> node list" where
  "child_nodes lower root child =
     (if entry_is_dir child then
        [build_tree lower (root @ [entry_name child]) (entries_of child)]
      else if lower (path_suffix (root @ [entry_name child])) = ''.md'' then
        [Node (path_stem (root @ [entry_name child])) (root @ [entry_name child]) False []]
      else [])"

section \<open>Rendering the navigation\<close>

text \<open>\<open>str(n)\<close> for an integer: decimal digits, with a minus sign below zero.\<close>

function str_nat :: "nat \<Rightarrow> string" where
  "str_nat n =
     (if n < 10 then [''0123456789'' ! n]
      else str_nat (n div 10) @ [''0123456789'' ! (n mod 10)])"
  by pat_completeness auto
termination
  by (relation "measure (\<lambda>n. n)") auto

definition str_int :: "int \<Rightarrow> string" where
  "str_int i = (if i < 0 then ''-'' @ str_nat (nat (- i)) else str_nat (nat i))"

text \<open>A loop that collects results stops at the first exception.\<close>

fun collect :: "('e + 'a) list \<Rightarrow> 'e + 'a list" where
  "collect [] = Inr []"
| "collect (r # rs) =
     (case r of
        Inl e \<Rightarrow> Inl e
      | Inr v \<Rightarrow> (case collect rs of Inl e \<Rightarrow> Inl e | Inr vs \<Rightarrow> Inr (v # vs)))"

definition newline :: string where
  "newline = [CHR 0x0A]"

text \<open>The local variables of \<open>render_nav\<close>, in the order the source computes them.\<close>

definition style_attr :: "int \<Rightarrow> string" where
  "style_attr depth =
     (let indent_px = depth * 16 in
      if depth \<noteq> 0 then '' style=\"margin-left:'' @ str_int indent_px @ ''px\"'' else [])"

definition open_attr :: "node \<Rightarrow> path option \<Rightarrow> string" where
  "open_attr nd current_md =
     (if (case current_md of None \<Rightarrow> False | Some c \<Rightarrow> is_relative_to c (path nd))
      then '' open'' else [])"

definition class_attr :: "path \<Rightarrow> path option \<Rightarrow> path \<Rightarrow> error + string" where
  "class_attr rel_md_path current_md root =
     (case current_md of
        None \<Rightarrow> Inr []
      | Some c \<Rightarrow>
          (case relative_to c root of
             Inl e \<Rightarrow> Inl e
           | Inr rel_current \<Rightarrow>
               Inr (if rel_md_path = rel_current then '' class=\"active\"'' else [])))"

definition render_link :: "node \<Rightarrow> path option \<Rightarrow> path \<Rightarrow> int \<Rightarrow> error + string" where
  "render_link nd current_md root depth =
     (case relative_to (path nd) root of
        Inl e \<Rightarrow> Inl e
      | Inr rel_md_path \<Rightarrow>
          (case with_suffix rel_md_path ''.html'' of
             Inl e \<Rightarrow> Inl e
           | Inr html_href \<Rightarrow>
               (case class_attr rel_md_path current_md root of
                  Inl e \<Rightarrow> Inl e
                | Inr cls \<Rightarrow>
                    Inr (''<a href=\"'' @ as_posix html_href @ ''\"'' @ cls @ style_attr depth
                         @ '' title=\"'' @ name nd @ ''\">'' @ name nd @ ''</a>''))))"

definition details_head :: "node \<Rightarrow> path option \<Rightarrow> int \<Rightarrow> string" where
  "details_head nd current_md depth =
     ''<details'' @ open_attr nd current_md @ style_attr depth
     @ ''><summary title=\"'' @ name nd @ ''\">'' @ name nd @ ''</summary>''"

fun render_nav :: "node \<Rightarrow> path option \<Rightarrow> path \<Rightarrow> int \<Rightarrow> error + string" where
  "render_nav (Node nm p d cs) current_md root depth =
     (if d then
        (case collect (map (\<lambda>child. render_nav child current_md root (depth + 1)) cs) of
           Inl e \<Rightarrow> Inl e
         | Inr rendered \<Rightarrow>
             Inr (join newline
                    ([details_head (Node nm p d cs) current_md depth] @ rendered
                     @ [''</details>''])))
      else render_link (Node nm p d cs) current_md root depth)"

text \<open>
  The nodes \<open>render_nav\<close> visits below a node, each with the depth it is rendered at. The
  children of a document node are never visited.
\<close>

fun nodes_at :: "node \<Rightarrow> int \<Rightarrow> (node \<times> int) list" where
  "nodes_at (Node nm p d cs) depth =
     (Node nm p d cs, depth)
     # (if d then concat (map (\<lambda>child. nodes_at child (depth + 1)) cs) else [])"

text \<open>
  Markup with the style attributes left open: a list of pieces, each a fixed text or the
  place of the style attribute of a node \<open>k\<close> levels below the node rendering starts from.
  \<open>fill depth\<close> puts in the attributes for a rendering that starts at \<open>depth\<close>.
\<close>

datatype piece = Text string | Style nat

definition fill :: "int \<Rightarrow> piece list \<Rightarrow> string" where
  "fill depth ps =
     concat (map (\<lambda>p. case p of Text s \<Rightarrow> s | Style k \<Rightarrow> style_attr (depth + int k)) ps)"

text \<open>The pieces of a rendering that starts one level further down.\<close>

definition deeper :: "piece \<Rightarrow> piece" where
  "deeper p = (case p of Text s \<Rightarrow> Text s | Style k \<Rightarrow> Style (Suc k))"

text \<open>
  A directory listing a file system can hold: within every directory the names are
  pairwise distinct.
\<close>

fun distinct_names :: "entry \<Rightarrow> bool" where
  "distinct_names (Dir n es) = (distinct (map entry_name es) \<and> list_all distinct_names es)"
| "distinct_names (File n t) = True"
| "distinct_names (Dangling n) = True"

section \<open>Markdown to HTML with copy buttons\<close>

text \<open>
  \<open>find_lit pat s\<close>: where the literal \<open>pat\<close> first occurs in \<open>s\<close>, as the number of
  characters before it.
\<close>

fun find_lit :: "string \<Rightarrow> string \<Rightarrow> nat option" where
  "find_lit pat [] = (if pat = [] then Some 0 else None)"
| "find_lit pat (c # cs) =
     (if prefix pat (c # cs) then Some 0
      else (case find_lit pat cs of None \<Rightarrow> None | Some i \<Rightarrow> Some (Suc i)))"

definition copy_button :: string where
  "copy_button = ''<button class=\"copy-btn\" onclick=\"copyCode(this)\">Copy</button>''"

text \<open>
  A match of \<open><pre><code[\s\S]*?</code></pre>\<close> at the head of a text, as its length: the
  opening literal, then the shortest text that the closing literal follows.
\<close>

definition match_code_block :: "string \<Rightarrow> nat option" where
  "match_code_block s =
     (if prefix ''<pre><code'' s then
        (case find_lit ''</code></pre>'' (drop 10 s) of
           None \<Rightarrow> None
         | Some i \<Rightarrow> Some (10 + i + 13))
      else None)"

text \<open>
  \<open>re.sub(pattern, _inject, html)\<close>: the text is scanned from the left; a match is replaced
  by the button followed by the match and the scan goes on behind it; where nothing
  matches, one character is copied.
\<close>

function sub_code_blocks :: "string \<Rightarrow> string" where
  "sub_code_blocks [] = []"
| "sub_code_blocks (c # cs) =
     (case match_code_block (c # cs) of
        Some n \<Rightarrow> copy_button @ take n (c # cs) @ sub_code_blocks (drop n (c # cs))
      | None \<Rightarrow> c # sub_code_blocks cs)"
  by pat_completeness auto
termination
  by (relation "measure length")
     (auto simp: match_code_block_def split: if_splits option.splits)

text \<open>
  \<open>md_to_html\<close>. The rewriting of Jekyll blocks and the conversion by the Markdown library
  come first and are taken together as the parameter \<open>convert\<close>.
\<close>

definition md_to_html :: "(string \<Rightarrow> string) \<Rightarrow> string \<Rightarrow> string" where
  "md_to_html convert text = sub_code_blocks (convert text)"




section \<open>The page title\<close>

text \<open>
  \<open>re.search(r"<h[1-3][^>]*>(.*?)</h[1-3]>", html)\<close>. \<open>open_tag\<close> matches
  \<open><h[1-3][^>]*>\<close> at the head of a text and returns what follows it; \<open>[^>]*\<close> cannot
  cross a \<open>>\<close>, so the tag ends at the first one. \<open>lazy_inner\<close> is \<open>(.*?)</h[1-3]>\<close>: the
  shortest text without a line break that a closing tag follows.
\<close>

definition close_tag_at :: "string \<Rightarrow> bool" where
  "close_tag_at s =
     (case s of
        a # b # c # d # e # rest \<Rightarrow>
          [a, b, c] = ''</h'' \<and> d \<in> set ''123'' \<and> e = CHR ''>''
      | _ \<Rightarrow> False)"

fun lazy_inner :: "string \<Rightarrow> string option" where
  "lazy_inner [] = None"
| "lazy_inner (c # cs) =
     (if close_tag_at (c # cs) then Some []
      else if c = CHR 0x0A then None
      else (case lazy_inner cs of None \<Rightarrow> None | Some t \<Rightarrow> Some (c # t)))"

definition open_tag :: "string \<Rightarrow> string option" where
  "open_tag s =
     (case s of
        a # b # d # rest \<Rightarrow>
          (if [a, b] = ''<h'' \<and> d \<in> set ''123'' then
             (case dropWhile (\<lambda>x. x \<noteq> CHR ''>'') rest of
                [] \<Rightarrow> None
              | g # after \<Rightarrow> Some after)
           else None)
      | _ \<Rightarrow> None)"

definition match_heading :: "string \<Rightarrow> string option" where
  "match_heading s = (case open_tag s of None \<Rightarrow> None | Some after \<Rightarrow> lazy_inner after)"

fun extract_title :: "string \<Rightarrow> string option" where
  "extract_title [] = None"
| "extract_title (c # cs) =
     (case match_heading (c # cs) of
        Some t \<Rightarrow> Some t
      | None \<Rightarrow> extract_title cs)"

text \<open>\<open>extract_title(body_html) or md_path.stem\<close>: \<open>None\<close> and the empty string are falsy.\<close>

definition page_title :: "string \<Rightarrow> path \<Rightarrow> string" where
  "page_title body_html md_path =
     (case extract_title body_html of
        None \<Rightarrow> path_stem md_path
      | Some t \<Rightarrow> (if t = [] then path_stem md_path else t))"

section \<open>Site generation\<close>

text \<open>
  \<open>TEMPLATE\<close>, cut at its four fields; \<open>str.format\<close> writes each value as it is and turns
  the doubled braces into single ones.
\<close>

definition template_0 :: string where
  "template_0 = join newline
     [''<!doctype html>'',
      ''<html lang=\"en\">'',
      ''<head>'',
      ''  <meta charset=\"utf-8\"/>'',
      ''  <meta name=\"viewport\" content=\"width=device-width,initial-scale=1\"/>'',
      ''  <base href=\"'']"

definition template_1 :: string where
  "template_1 = join newline
     [''\"/>'',
      ''  <title>'']"

definition template_2 :: string where
  "template_2 = join newline
     [''</title>'',
      ''  <link rel=\"icon\" href=\"favicon.ico\" type=\"image/x-icon\">'',
      ''  <link rel=\"manifest\" href=\"manifest.json\" />'',
      ''  <link rel=\"stylesheet\" href=\"static/style.css\"/>'',
      ''</head>'',
      ''<body>'',
      ''  <button class=\"menu-btn\" onclick=\"toggleNav()\">'' @ [CHR 0xE2, CHR 0x98, CHR 0xB0] @ ''</button>'',
      ''  <div class=\"layout\">'',
      ''    <nav class=\"sidebar\">'',
      ''      '']"

definition template_3 :: string where
  "template_3 = join newline
     ['''',
      ''    </nav>'',
      ''    <main>'',
      ''      '']"

definition template_4 :: string where
  "template_4 = join newline
     ['''',
      ''    </main>'',
      ''  </div>'',
      ''  <script>'',
      ''    function copyCode(btn) {'',
      ''      const code = btn.nextElementSibling.innerText;'',
      ''      navigator.clipboard.writeText(code).then(() => {'',
      ''        btn.textContent = 'Copied!';'',
      ''        setTimeout(() => btn.textContent = 'Copy', 2000);'',
      ''        '',
      ''      });'',
      ''    }'',
      '''',
      ''    function toggleNav() {'',
      ''      const sidebar = document.querySelector('.sidebar');'',
      ''      sidebar.classList.toggle('open');'',
      ''    }'',
      '''',
      ''    document.addEventListener('DOMContentLoaded', () => {'',
      ''      const sidebar = document.querySelector('.sidebar');'',
      ''      sidebar.addEventListener('click', (e) => {'',
      ''        if (e.target.tagName === 'A') {'',
      ''          sidebar.classList.remove('open');'',
      ''        }'',
      ''      });'',
      ''    });'',
      ''  </script>'',
      ''</body>'',
      ''</html>'']"

definition format_template :: "string \<Rightarrow> string \<Rightarrow> string \<Rightarrow> string \<Rightarrow> string" where
  "format_template title nav body base_href =
     template_0 @ base_href @ template_1 @ title @ template_2 @ nav @ template_3 @ body
     @ template_4"

text \<open>
  \<open>rglob\<close>: the directories are walked top down, each before its subdirectories, and in
  each the entries whose name matches are yielded in listing order. Names within a
  directory are distinct, so the set of paths already yielded never filters anything.
  \<open>walk m dir e\<close> is the walk below the directory \<open>e\<close> found at \<open>dir\<close>.
\<close>

fun walk :: "(string \<Rightarrow> bool) \<Rightarrow> path \<Rightarrow> entry \<Rightarrow> (path \<times> entry) list" where
  "walk m dir (Dir n es) =
     map (\<lambda>e. (dir @ [entry_name e], e)) (filter (\<lambda>e. m (entry_name e)) es)
     @ concat (map (\<lambda>e. walk m (dir @ [entry_name e]) e) es)"
| "walk m dir (File n t) = []"
| "walk m dir (Dangling n) = []"

definition rglob :: "(string \<Rightarrow> bool) \<Rightarrow> path \<Rightarrow> entry list \<Rightarrow> (path \<times> entry) list" where
  "rglob m root listing = walk m root (Dir (path_name root) listing)"

text \<open>The pattern \<open>*.md\<close> on POSIX: the name ends in \<open>.md\<close>, in lower case. \<open>*\<close>: any name.\<close>

definition glob_md :: "string \<Rightarrow> bool" where
  "glob_md nm = suffix ''.md'' nm"

definition glob_all :: "string \<Rightarrow> bool" where
  "glob_all nm = True"

fun read_text :: "entry \<Rightarrow> error + string" where
  "read_text (File n t) = Inr t"
| "read_text (Dir n es) = Inl IsADirectoryError"
| "read_text (Dangling n) = Inl FileNotFoundError"

text \<open>
  The output directory, as a map from paths below it to what is there. The directory
  itself is the empty path and exists once \<open>generate_site\<close> has created it.
\<close>

datatype onode = OFile string | ODir

type_synonym outfs = "path \<Rightarrow> onode option"

text \<open>\<open>p.mkdir(parents=True, exist_ok=True)\<close>.\<close>

function mkdir_p :: "path \<Rightarrow> outfs \<Rightarrow> error + outfs" where
  "mkdir_p p fs =
     (if p = [] then Inr fs
      else
        (case fs p of
           Some ODir \<Rightarrow> Inr fs
         | Some (OFile t) \<Rightarrow> Inl FileExistsError
         | None \<Rightarrow>
             (case mkdir_p (butlast p) fs of
                Inl e \<Rightarrow> Inl NotADirectoryError
              | Inr fs' \<Rightarrow> Inr (fs'(p \<mapsto> ODir)))))"
  by pat_completeness auto
termination
  by (relation "measure (\<lambda>(p, fs). length p)") auto

declare mkdir_p.simps [simp del]

text \<open>\<open>p.write_text(text)\<close>: the parent must be a directory and \<open>p\<close> must not be one.\<close>

definition write_text :: "path \<Rightarrow> string \<Rightarrow> outfs \<Rightarrow> error + outfs" where
  "write_text p text fs =
     (if p = [] then Inl IsADirectoryError
      else if butlast p \<noteq> [] \<and> fs (butlast p) = None then Inl FileNotFoundError
      else if butlast p \<noteq> [] \<and> fs (butlast p) \<noteq> Some ODir then Inl NotADirectoryError
      else if fs p = Some ODir then Inl IsADirectoryError
      else Inr (fs(p \<mapsto> OFile text)))"

text \<open>\<open>shutil.copy2(src, dest)\<close>: into \<open>dest\<close> when that is a directory.\<close>

definition copy2 :: "string \<Rightarrow> string \<Rightarrow> path \<Rightarrow> outfs \<Rightarrow> error + outfs" where
  "copy2 src_name content dest fs =
     (let dest' = (if dest = [] \<or> fs dest = Some ODir then dest @ [src_name] else dest)
      in write_text dest' content fs)"

text \<open>A loop over a list that changes the state and stops at the first exception.\<close>

fun for_each :: "('a \<Rightarrow> 's \<Rightarrow> 'e + 's) \<Rightarrow> 'a list \<Rightarrow> 's \<Rightarrow> 'e + 's" where
  "for_each f [] s = Inr s"
| "for_each f (x # xs) s = (case f x s of Inl e \<Rightarrow> Inl e | Inr s' \<Rightarrow> for_each f xs s')"

definition base_href :: "path \<Rightarrow> string" where
  "base_href rel_md =
     (let depth = int (length rel_md) - 1 in
      if depth > 0 then concat (replicate (nat depth) ''../'') else ''./'')"

definition nav_html :: "node \<Rightarrow> path \<Rightarrow> path \<Rightarrow> error + string" where
  "nav_html tree md_path input_dir =
     (case collect (map (\<lambda>child. render_nav child (Some md_path) input_dir 0) (children tree)) of
        Inl e \<Rightarrow> Inl e
      | Inr parts \<Rightarrow> Inr (join newline parts))"

text \<open>The body of the loop over the documents.\<close>

definition write_page ::
  "(string \<Rightarrow> string) \<Rightarrow> node \<Rightarrow> path \<Rightarrow> path \<times> entry \<Rightarrow> outfs \<Rightarrow> error + outfs" where
  "write_page convert tree input_dir md fs =
     (case relative_to (fst md) input_dir of
        Inl e \<Rightarrow> Inl e
      | Inr rel_md \<Rightarrow>
     (case with_suffix rel_md ''.html'' of
        Inl e \<Rightarrow> Inl e
      | Inr html_out_path \<Rightarrow>
     (case mkdir_p (butlast html_out_path) fs of
        Inl e \<Rightarrow> Inl e
      | Inr fs1 \<Rightarrow>
     (case read_text (snd md) of
        Inl e \<Rightarrow> Inl e
      | Inr text \<Rightarrow>
          (let body_html = md_to_html convert text;
               title = page_title body_html (fst md)
           in case nav_html tree (fst md) input_dir of
                Inl e \<Rightarrow> Inl e
              | Inr nav \<Rightarrow>
                  write_text html_out_path
                    (format_template title nav body_html (base_href rel_md)) fs1)))))"

text \<open>The bodies of the two loops that copy assets.\<close>

definition copy_asset ::
  "(string \<Rightarrow> string) \<Rightarrow> path \<Rightarrow> path \<times> entry \<Rightarrow> outfs \<Rightarrow> error + outfs" where
  "copy_asset lower input_dir asset fs =
     (if is_file (snd asset) \<and> lower (path_suffix (fst asset)) \<noteq> ''.md'' then
        (case relative_to (fst asset) input_dir of
           Inl e \<Rightarrow> Inl e
         | Inr dest \<Rightarrow>
             (case mkdir_p (butlast dest) fs of
                Inl e \<Rightarrow> Inl e
              | Inr fs1 \<Rightarrow>
                  (case read_text (snd asset) of
                     Inl e \<Rightarrow> Inl e
                   | Inr content \<Rightarrow> copy2 (path_name (fst asset)) content dest fs1)))
      else Inr fs)"

definition copy_global_asset :: "path \<Rightarrow> path \<times> entry \<Rightarrow> outfs \<Rightarrow> error + outfs" where
  "copy_global_asset assets_dir asset fs =
     (if is_file (snd asset) then
        (case relative_to (fst asset) assets_dir of
           Inl e \<Rightarrow> Inl e
         | Inr dest \<Rightarrow>
             (case mkdir_p (butlast dest) fs of
                Inl e \<Rightarrow> Inl e
              | Inr fs1 \<Rightarrow>
                  (case read_text (snd asset) of
                     Inl e \<Rightarrow> Inl e
                   | Inr content \<Rightarrow> copy2 (path_name (fst asset)) content dest fs1)))
      else Inr fs)"

definition redirect_markup :: "string \<Rightarrow> string" where
  "redirect_markup url = ''<meta http-equiv=\"refresh\" content=\"0; url='' @ url @ ''\">''"

text \<open>The last step: the redirect page, if the scan yields a first document.\<close>

definition write_index :: "path \<Rightarrow> entry list \<Rightarrow> outfs \<Rightarrow> error + outfs" where
  "write_index input_dir listing fs =
     (case rglob glob_md input_dir listing of
        [] \<Rightarrow> Inr fs
      | first_page # more \<Rightarrow>
          (case relative_to (fst first_page) input_dir of
             Inl e \<Rightarrow> Inl e
           | Inr rel \<Rightarrow>
               (case with_suffix rel ''.html'' of
                  Inl e \<Rightarrow> Inl e
                | Inr first_html \<Rightarrow>
                    write_text [''index.html''] (redirect_markup (as_posix first_html)) fs)))"

text \<open>
  The output once the stylesheet is written: the old output directory is removed, then
  \<open>static\<close> is created and the stylesheet written into it. The stylesheet text (the base
  stylesheet followed by the theme of the highlighter) is the parameter \<open>css\<close>.
\<close>

definition initial_output :: "string \<Rightarrow> outfs" where
  "initial_output css = [[''static''] \<mapsto> ODir, [''static'', ''style.css''] \<mapsto> OFile css]"

text \<open>
  The output after the documents and the assets, before the redirect page. \<open>assets\<close> is
  the listing of the global assets directory, if there is one. The output directory lies
  outside the input directory and the assets directory.
\<close>

definition assets_dir :: path where
  "assets_dir = [''assets'']"

definition generate_pages_and_assets ::
  "(string \<Rightarrow> string) \<Rightarrow> (string \<Rightarrow> string) \<Rightarrow> string \<Rightarrow> path \<Rightarrow> entry list
     \<Rightarrow> entry list option \<Rightarrow> error + outfs" where
  "generate_pages_and_assets lower convert css input_dir listing assets =
     (let tree = build_tree lower input_dir listing in
      case for_each (write_page convert tree input_dir) (rglob glob_md input_dir listing)
             (initial_output css) of
        Inl e \<Rightarrow> Inl e
      | Inr fs1 \<Rightarrow>
     (case for_each (copy_asset lower input_dir) (rglob glob_all input_dir listing) fs1 of
        Inl e \<Rightarrow> Inl e
      | Inr fs2 \<Rightarrow>
          (case assets of
             None \<Rightarrow> Inr fs2
           | Some alisting \<Rightarrow>
               for_each (copy_global_asset assets_dir) (rglob glob_all assets_dir alisting) fs2)))"

definition generate_site ::
  "(string \<Rightarrow> string) \<Rightarrow> (string \<Rightarrow> string) \<Rightarrow> string \<Rightarrow> path \<Rightarrow> entry list
     \<Rightarrow> entry list option \<Rightarrow> error + outfs" where
  "generate_site lower convert css input_dir listing assets =
     (case generate_pages_and_assets lower convert css input_dir listing assets of
        Inl e \<Rightarrow> Inl e
      | Inr fs \<Rightarrow> write_index input_dir listing fs)"

text \<open>
  Two listings that hold the same entries: the order may differ in the directory itself
  and in every directory below it.
\<close>

inductive rearranged :: "entry list \<Rightarrow> entry list \<Rightarrow> bool" where
  same: "rearranged es es"
| order: "mset es' = mset es \<Longrightarrow> rearranged es es'"
| below: "rearranged sub sub' \<Longrightarrow> rearranged (xs @ Dir n sub # ys) (xs @ Dir n sub' # ys)"
| step: "rearranged a b \<Longrightarrow> rearranged b c \<Longrightarrow> rearranged a c"

text \<open>No two entries of a directory have the same sort key, here and in the directories below.\<close>

fun keys_distinct :: "(string \<Rightarrow> string) \<Rightarrow> entry \<Rightarrow> bool" where
  "keys_distinct lower (Dir n es) =
     (distinct (map (sort_key_of lower) es) \<and> list_all (keys_distinct lower) es)"
| "keys_distinct lower (File n t) = True"
| "keys_distinct lower (Dangling n) = True"

text \<open>The key by which the children of a node are compared below.\<close>

definition node_key :: "(string \<Rightarrow> string) \<Rightarrow> node \<Rightarrow> bool \<times> string" where
  "node_key lower n = (\<not> is_dir n, lower (path_name (path n)))"

section \<open>Facts about paths and the tree builder\<close>

lemma path_name_snoc: "path_name (p @ [n]) = n"
  by (simp add: path_name_def)

lemma build_tree_unfold:
  "build_tree lower root listing =
     Node (path_name root) root True
       (concat (map (child_nodes lower root) (sort_key (sort_key_of lower) listing)))"
  by (subst build_tree.simps) (simp add: child_nodes_def cong: map_cong)

lemma child_nodes_simps:
  "child_nodes lower root (Dir n es) = [build_tree lower (root @ [n]) es]"
  "child_nodes lower root (File n t) =
     (if lower (path_suffix (root @ [n])) = ''.md''
      then [Node (path_stem (root @ [n])) (root @ [n]) False []] else [])"
  "child_nodes lower root (Dangling n) =
     (if lower (path_suffix (root @ [n])) = ''.md''
      then [Node (path_stem (root @ [n])) (root @ [n]) False []] else [])"
  by (simp_all add: child_nodes_def)

lemmas eval_tree = build_tree_unfold child_nodes_simps sort_key_of_def ascii_lower_def
  ascii_lower_char_def less_eq_prod_def path_suffix_def path_stem_def path_name_def

lemma path_build_tree: "path (build_tree lower root listing) = root"
  by (simp add: build_tree_unfold)

lemma is_dir_build_tree: "is_dir (build_tree lower root listing)"
  by (simp add: build_tree_unfold)

lemma children_build_tree:
  "children (build_tree lower root listing) =
     concat (map (child_nodes lower root) (sort_key (sort_key_of lower) listing))"
  by (simp add: build_tree_unfold)

section \<open>The order of the children\<close>

lemma child_nodes_cases:
  assumes "is_file e \<or> entry_is_dir e"
  shows "child_nodes lower root e = []
       \<or> (\<exists>n. child_nodes lower root e = [n] \<and> node_key lower n = sort_key_of lower e)"
  using assms
  by (cases e) (simp_all add: child_nodes_def node_key_def sort_key_of_def path_name_snoc
      path_build_tree is_dir_build_tree)

lemma keys_concat_singletons:
  assumes "\<forall>x\<in>set xs. f x = [] \<or> (\<exists>n. f x = [n] \<and> k' n = k x)"
  shows "map k' (concat (map f xs)) = map k (filter (\<lambda>x. f x \<noteq> []) xs)"
  using assms by (induction xs) auto

lemma sorted_node_keys:
  assumes "\<forall>e\<in>set listing. is_file e \<or> entry_is_dir e"
  shows "sorted (map (node_key lower) (children (build_tree lower root listing)))"
proof -
  let ?xs = "sort_key (sort_key_of lower) listing"
  have "\<forall>e\<in>set ?xs. child_nodes lower root e = []
          \<or> (\<exists>n. child_nodes lower root e = [n] \<and> node_key lower n = sort_key_of lower e)"
    using assms child_nodes_cases by simp
  then have "map (node_key lower) (concat (map (child_nodes lower root) ?xs))
      = map (sort_key_of lower) (filter (\<lambda>e. child_nodes lower root e \<noteq> []) ?xs)"
    by (rule keys_concat_singletons)
  moreover have "sorted (map (sort_key_of lower)
      (filter (\<lambda>e. child_nodes lower root e \<noteq> []) ?xs))"
    by (rule sorted_filter) simp
  ultimately show ?thesis by (simp add: children_build_tree)
qed

lemma bool_key_split:
  fixes s :: "'a \<Rightarrow> 'b::linorder"
  assumes "sorted (map (\<lambda>x. (b x, s x)) xs)"
  shows "xs = filter (\<lambda>x. \<not> b x) xs @ filter b xs
       \<and> sorted (map s (filter (\<lambda>x. \<not> b x) xs)) \<and> sorted (map s (filter b xs))"
  using assms
proof (induction xs)
  case Nil
  then show ?case by simp
next
  case (Cons x xs)
  then have ih: "xs = filter (\<lambda>x. \<not> b x) xs @ filter b xs"
    "sorted (map s (filter (\<lambda>x. \<not> b x) xs))" "sorted (map s (filter b xs))"
    by simp_all
  from Cons.prems have le: "\<forall>y\<in>set xs. (b x, s x) \<le> (b y, s y)" by simp
  show ?case
  proof (cases "b x")
    case True
    with le have all: "\<forall>y\<in>set xs. b y \<and> s x \<le> s y"
      by (auto simp: less_eq_prod_def)
    then have "filter (\<lambda>x. \<not> b x) xs = []" by (simp add: filter_empty_conv)
    moreover have "filter b xs = xs" using all by (simp add: filter_id_conv)
    ultimately show ?thesis using True ih all by simp
  next
    case False
    with le have all: "\<forall>y\<in>set xs. \<not> b y \<longrightarrow> s x \<le> s y"
      by (auto simp: less_eq_prod_def)
    show ?thesis using False ih all by simp
  qed
qed

lemma sort_key_rearranged:
  assumes "mset xs' = mset xs" and "distinct (map f xs)"
  shows "sort_key f xs' = sort_key f xs"
proof (rule sort_key_inj_key_eq)
  show "mset xs' = mset (sort_key f xs)" using assms(1) by simp
  have "inj_on f (set xs)" using assms(2) by (simp add: distinct_map)
  moreover have "set xs' = set xs" using assms(1) by (rule mset_eq_setD)
  ultimately show "inj_on f (set xs')" by simp
  show "sorted (map f (sort_key f xs))" by simp
qed

lemma build_tree_rearranged:
  assumes "mset listing' = mset listing" and "distinct (map (sort_key_of lower) listing)"
  shows "build_tree lower root listing' = build_tree lower root listing"
  by (simp add: build_tree_unfold sort_key_rearranged [OF assms])

lemma insort_key_map_same:
  assumes "\<And>x. f (g x) = f x"
  shows "insort_key f (g x) (map g ys) = map g (insort_key f x ys)"
proof (induction ys)
  case Nil
  show ?case by simp
next
  case (Cons y ys)
  then show ?case by (simp add: assms)
qed

lemma sort_key_map_same:
  assumes "\<And>x. f (g x) = f x"
  shows "sort_key f (map g xs) = map g (sort_key f xs)"
proof (induction xs)
  case Nil
  show ?case by simp
next
  case (Cons x xs)
  have "sort_key f (map g (x # xs)) = insort_key f (g x) (sort_key f (map g xs))"
    by simp
  also have "\<dots> = insort_key f (g x) (map g (sort_key f xs))"
    by (simp only: Cons.IH)
  also have "\<dots> = map g (insort_key f x (sort_key f xs))"
    by (rule insort_key_map_same [where f = f and g = g, OF assms])
  finally show ?case by simp
qed

lemma keys_distinct_listing:
  "keys_distinct lower (Dir n es) \<longleftrightarrow>
     distinct (map (sort_key_of lower) es) \<and> (\<forall>e\<in>set es. keys_distinct lower e)"
  by (simp add: list_all_iff)

lemma rearranged_below_tree:
  assumes dist: "distinct (map (sort_key_of lower) (xs @ Dir n sub # ys))"
      and sub: "\<And>root. build_tree lower root sub' = build_tree lower root sub"
  shows "build_tree lower root (xs @ Dir n sub' # ys) = build_tree lower root (xs @ Dir n sub # ys)"
proof -
  let ?g = "\<lambda>e. if e = Dir n sub then Dir n sub' else e"
  let ?k = "sort_key_of lower"
  from dist have "Dir n sub \<notin> set xs" "Dir n sub \<notin> set ys"
    by (auto simp: distinct_map inj_on_def)
  then have "map ?g xs = xs" "map ?g ys = ys"
    by (auto intro: map_idI)
  then have es': "xs @ Dir n sub' # ys = map ?g (xs @ Dir n sub # ys)"
    by simp
  have key: "?k (?g e) = ?k e" for e
    by (simp add: sort_key_of_def)
  have cn: "child_nodes lower root (?g e) = child_nodes lower root e" for e
    by (simp add: child_nodes_simps sub)
  have comp: "child_nodes lower root \<circ> ?g = child_nodes lower root"
    by (rule ext) (simp only: comp_apply cn)
  have "sort_key ?k (xs @ Dir n sub' # ys) = map ?g (sort_key ?k (xs @ Dir n sub # ys))"
    unfolding es' by (rule sort_key_map_same) (rule key)
  then have "map (child_nodes lower root) (sort_key ?k (xs @ Dir n sub' # ys))
      = map (child_nodes lower root) (sort_key ?k (xs @ Dir n sub # ys))"
    by (simp only: map_map comp)
  then show ?thesis
    by (simp only: build_tree_unfold)
qed

lemma keys_distinct_order:
  assumes "mset es' = mset es" and "keys_distinct lower (Dir n es)"
  shows "keys_distinct lower (Dir n es')"
proof -
  from assms(1) have "mset (map (sort_key_of lower) es') = mset (map (sort_key_of lower) es)"
    by (simp only: mset_map)
  then have "distinct (map (sort_key_of lower) es') \<longleftrightarrow> distinct (map (sort_key_of lower) es)"
    by (rule mset_eq_imp_distinct_iff)
  moreover from assms(1) have "set es' = set es" by (rule mset_eq_setD)
  ultimately show ?thesis
    using assms(2) unfolding keys_distinct_listing by blast
qed

lemma keys_distinct_below:
  assumes "keys_distinct lower (Dir n (xs @ Dir m sub # ys))"
      and "keys_distinct lower (Dir m sub')"
  shows "keys_distinct lower (Dir n (xs @ Dir m sub' # ys))"
proof -
  have keys: "map (sort_key_of lower) (xs @ Dir m sub' # ys)
      = map (sort_key_of lower) (xs @ Dir m sub # ys)"
    by (simp add: sort_key_of_def)
  from assms(1) have d: "distinct (map (sort_key_of lower) (xs @ Dir m sub # ys))"
    and a: "\<forall>e\<in>set (xs @ Dir m sub # ys). keys_distinct lower e"
    unfolding keys_distinct_listing by blast+
  have "keys_distinct lower e" if "e \<in> set (xs @ Dir m sub' # ys)" for e
  proof (cases "e = Dir m sub'")
    case True
    with assms(2) show ?thesis by simp
  next
    case False
    with that have "e \<in> set (xs @ Dir m sub # ys)" by auto
    with a show ?thesis by blast
  qed
  with d show ?thesis
    unfolding keys_distinct_listing keys by blast
qed

lemma rearranged_tree:
  assumes "rearranged listing listing'"
  shows "keys_distinct lower (Dir n listing) \<Longrightarrow>
           keys_distinct lower (Dir n listing')
         \<and> (\<forall>root. build_tree lower root listing' = build_tree lower root listing)"
  using assms
proof (induction arbitrary: n rule: rearranged.induct)
  case (same es)
  then show ?case by simp
next
  case (order es' es)
  from order.prems have "distinct (map (sort_key_of lower) es)"
    unfolding keys_distinct_listing by (rule conjunct1)
  then have "build_tree lower root es' = build_tree lower root es" for root
    by (rule build_tree_rearranged [OF order.hyps])
  then have "\<forall>root. build_tree lower root es' = build_tree lower root es" ..
  with keys_distinct_order [OF order.hyps order.prems] show ?case ..
next
  case (below sub sub' xs m ys)
  from below.prems have dist: "distinct (map (sort_key_of lower) (xs @ Dir m sub # ys))"
    and all: "\<forall>e\<in>set (xs @ Dir m sub # ys). keys_distinct lower e"
    unfolding keys_distinct_listing by (rule conjunct1, rule conjunct2)
  have "Dir m sub \<in> set (xs @ Dir m sub # ys)" by simp
  with all have "keys_distinct lower (Dir m sub)" by (rule bspec)
  from below.IH [OF this] have kd: "keys_distinct lower (Dir m sub')"
    and eq: "\<forall>root. build_tree lower root sub' = build_tree lower root sub"
    by (rule conjunct1, rule conjunct2)
  from eq have eq': "build_tree lower root sub' = build_tree lower root sub" for root ..
  have "build_tree lower root (xs @ Dir m sub' # ys) = build_tree lower root (xs @ Dir m sub # ys)"
    for root
    by (rule rearranged_below_tree [OF dist eq'])
  then have "\<forall>root. build_tree lower root (xs @ Dir m sub' # ys)
      = build_tree lower root (xs @ Dir m sub # ys)" ..
  with keys_distinct_below [OF below.prems kd] show ?case ..
next
  case (step a b c)
  from step.IH(1) [OF step.prems] have b: "keys_distinct lower (Dir n b)"
    and ab: "\<forall>root. build_tree lower root b = build_tree lower root a"
    by (rule conjunct1, rule conjunct2)
  from step.IH(2) [OF b] have c: "keys_distinct lower (Dir n c)"
    and bc: "\<forall>root. build_tree lower root c = build_tree lower root b"
    by (rule conjunct1, rule conjunct2)
  have "build_tree lower root c = build_tree lower root a" for root
    using bc [rule_format, of root] ab [rule_format, of root] by (rule trans)
  then have "\<forall>root. build_tree lower root c = build_tree lower root a" ..
  with c show ?case ..
qed

text \<open>
  C4, as the claim states it, fails in three ways. An entry that is neither a regular file
  nor a directory, such as a dangling link \<open>a.md\<close>, has the sort key of a directory and
  becomes a document node ahead of the directory \<open>b\<close>. Documents are compared by file
  name with the extension, so \<open>intro-advanced\<close> comes before \<open>intro\<close> although the node
  names compare the other way round. Two names that differ in case only have the same key
  and keep the order of the listing, so two listings of the same entries give two trees.
  All names here are ASCII, where \<open>str.lower\<close> is \<open>ascii_lower\<close>.
\<close>

theorem build_tree_order_counterexample:
  "children (build_tree ascii_lower [''c''] [Dangling ''a.md'', Dir ''b'' []])
     = [Node ''a'' [''c'', ''a.md''] False [], Node ''b'' [''c'', ''b''] True []]
   \<and> map name (children (build_tree ascii_lower [''c'']
         [File ''intro.md'' [], File ''intro-advanced.md'' []]))
     = [''intro-advanced'', ''intro'']
   \<and> \<not> ascii_lower ''intro-advanced'' \<le> ascii_lower ''intro''
   \<and> build_tree ascii_lower [''c''] [File ''A.md'' [], File ''a.md'' []]
     \<noteq> build_tree ascii_lower [''c''] [File ''a.md'' [], File ''A.md'' []]"
  by (simp add: eval_tree)

text \<open>
  C4, amended, for every lower-casing function \<open>lower\<close>. When every entry of the
  directory is a regular file or a directory, the children are the directory nodes followed
  by the document nodes, each group sorted by the lower-cased name of the entry (for a
  document, the file name with its extension). When no two entries of the directory have
  the same sort key (the same kind and names that are equal once lower-cased), every
  order of the listing gives the same tree; and when that holds in the directories below
  as well, so does every order of the listings in the directory and below it.
\<close>

theorem build_tree_order:
  "((\<forall>e\<in>set listing. is_file e \<or> entry_is_dir e) \<longrightarrow>
      (let cs = children (build_tree lower root listing) in
           cs = filter is_dir cs @ filter (\<lambda>n. \<not> is_dir n) cs
         \<and> sorted (map (\<lambda>n. lower (path_name (path n))) (filter is_dir cs))
         \<and> sorted (map (\<lambda>n. lower (path_name (path n))) (filter (\<lambda>n. \<not> is_dir n) cs))))
   \<and> (\<forall>listing'. mset listing' = mset listing \<and> distinct (map (sort_key_of lower) listing)
          \<longrightarrow> build_tree lower root listing' = build_tree lower root listing)
   \<and> (\<forall>listing' n. rearranged listing listing' \<and> keys_distinct lower (Dir n listing)
          \<longrightarrow> build_tree lower root listing' = build_tree lower root listing)"
proof -
  have order: "(let cs = children (build_tree lower root listing) in
           cs = filter is_dir cs @ filter (\<lambda>n. \<not> is_dir n) cs
         \<and> sorted (map (\<lambda>n. lower (path_name (path n))) (filter is_dir cs))
         \<and> sorted (map (\<lambda>n. lower (path_name (path n))) (filter (\<lambda>n. \<not> is_dir n) cs)))"
    if "\<forall>e\<in>set listing. is_file e \<or> entry_is_dir e"
  proof -
    have "sorted (map (\<lambda>n. (\<not> is_dir n, lower (path_name (path n))))
           (children (build_tree lower root listing)))"
      using sorted_node_keys [OF that, of lower root] by (simp add: node_key_def [abs_def])
    from bool_key_split [OF this] show ?thesis
      by (simp add: Let_def)
  qed
  have one: "\<forall>listing'. mset listing' = mset listing \<and> distinct (map (sort_key_of lower) listing)
            \<longrightarrow> build_tree lower root listing' = build_tree lower root listing"
    by (blast intro: build_tree_rearranged)
  have deep: "\<forall>listing' n. rearranged listing listing' \<and> keys_distinct lower (Dir n listing)
          \<longrightarrow> build_tree lower root listing' = build_tree lower root listing"
  proof (intro allI impI)
    fix listing' n
    assume "rearranged listing listing' \<and> keys_distinct lower (Dir n listing)"
    then have "rearranged listing listing'" "keys_distinct lower (Dir n listing)"
      by (rule conjunct1, rule conjunct2)
    from rearranged_tree [OF this] show "build_tree lower root listing' = build_tree lower root listing"
      by (rule conjunct2 [THEN spec])
  qed
  have "(\<forall>e\<in>set listing. is_file e \<or> entry_is_dir e) \<longrightarrow>
      (let cs = children (build_tree lower root listing) in
           cs = filter is_dir cs @ filter (\<lambda>n. \<not> is_dir n) cs
         \<and> sorted (map (\<lambda>n. lower (path_name (path n))) (filter is_dir cs))
         \<and> sorted (map (\<lambda>n. lower (path_name (path n))) (filter (\<lambda>n. \<not> is_dir n) cs)))"
    using order by (rule impI)
  with one deep show ?thesis by (intro conjI)
qed

theorem build_tree_order_witness:
  "list_all (\<lambda>e. is_file e \<or> entry_is_dir e)
     [File ''b.md'' ''x'', Dir ''Z'' [], File ''A.md'' ''y'',
      Dir ''guide'' [File ''t.md'' ''1'', File ''s.md'' ''2'']]
   \<and> map name (children (build_tree ascii_lower [''c'']
         [File ''b.md'' ''x'', Dir ''Z'' [], File ''A.md'' ''y'',
          Dir ''guide'' [File ''t.md'' ''1'', File ''s.md'' ''2'']]))
       = [''guide'', ''Z'', ''A'', ''b'']
   \<and> build_tree ascii_lower [''c'']
         [Dir ''guide'' [File ''t.md'' ''1'', File ''s.md'' ''2''], File ''A.md'' ''y'',
          Dir ''Z'' [], File ''b.md'' ''x'']
       = build_tree ascii_lower [''c'']
         [File ''b.md'' ''x'', Dir ''Z'' [], File ''A.md'' ''y'',
          Dir ''guide'' [File ''t.md'' ''1'', File ''s.md'' ''2'']]
   \<and> build_tree ascii_lower [''c'']
         [File ''b.md'' ''x'', Dir ''Z'' [], File ''A.md'' ''y'',
          Dir ''guide'' [File ''s.md'' ''2'', File ''t.md'' ''1'']]
       = build_tree ascii_lower [''c'']
         [File ''b.md'' ''x'', Dir ''Z'' [], File ''A.md'' ''y'',
          Dir ''guide'' [File ''t.md'' ''1'', File ''s.md'' ''2'']]"
proof -
  let ?g = "[File ''t.md'' ''1'', File ''s.md'' ''2'']"
  let ?g' = "[File ''s.md'' ''2'', File ''t.md'' ''1'']"
  let ?l = "[File ''b.md'' ''x'', Dir ''Z'' [], File ''A.md'' ''y'', Dir ''guide'' ?g]"
  let ?l1 = "[Dir ''guide'' ?g, File ''A.md'' ''y'', Dir ''Z'' [], File ''b.md'' ''x'']"
  let ?l2 = "[File ''b.md'' ''x'', Dir ''Z'' [], File ''A.md'' ''y'', Dir ''guide'' ?g']"
  note inst = build_tree_order [of ?l ascii_lower "[''c'']"]
  have files: "\<forall>e\<in>set ?l. is_file e \<or> entry_is_dir e" by simp
  have d1: "distinct (map (sort_key_of ascii_lower) ?l)"
    by (simp add: sort_key_of_def ascii_lower_def ascii_lower_char_def)
  have kd: "keys_distinct ascii_lower (Dir ''c'' ?l)"
    by (simp add: sort_key_of_def ascii_lower_def ascii_lower_char_def)
  have m1: "mset ?l1 = mset ?l" by simp
  have "rearranged ?g ?g'" by (rule rearranged.order) simp
  then have "rearranged ([File ''b.md'' ''x'', Dir ''Z'' [], File ''A.md'' ''y''] @ Dir ''guide'' ?g # [])
      ([File ''b.md'' ''x'', Dir ''Z'' [], File ''A.md'' ''y''] @ Dir ''guide'' ?g' # [])"
    by (rule rearranged.below)
  then have r2: "rearranged ?l ?l2" by simp
  from inst files have "(let cs = children (build_tree ascii_lower [''c''] ?l) in
           cs = filter is_dir cs @ filter (\<lambda>n. \<not> is_dir n) cs
         \<and> sorted (map (\<lambda>n. ascii_lower (path_name (path n))) (filter is_dir cs))
         \<and> sorted (map (\<lambda>n. ascii_lower (path_name (path n))) (filter (\<lambda>n. \<not> is_dir n) cs)))"
    by blast
  have names: "map name (children (build_tree ascii_lower [''c''] ?l))
       = [''guide'', ''Z'', ''A'', ''b'']"
    by (simp add: eval_tree)
  from inst m1 d1 have e1: "build_tree ascii_lower [''c''] ?l1 = build_tree ascii_lower [''c''] ?l"
    by blast
  from inst r2 kd have e2: "build_tree ascii_lower [''c''] ?l2 = build_tree ascii_lower [''c''] ?l"
    by blast
  from names e1 e2 show ?thesis by simp
qed

section \<open>Facts about rendering\<close>

lemma take_length_eq_prefix: "take (length xs) ys = xs \<longleftrightarrow> prefix xs ys"
  by (metis append_eq_conv_conj prefix_def take_is_prefix)

lemma is_relative_to_prefix: "is_relative_to p other \<longleftrightarrow> prefix other p"
  by (simp add: is_relative_to_def relative_to_def take_length_eq_prefix)

lemma relative_to_append: "relative_to (root @ rel) root = Inr rel"
  by (simp add: relative_to_def)

lemma collect_Inr_length: "collect rs = Inr vs \<Longrightarrow> length vs = length rs"
  by (induction rs arbitrary: vs) (auto split: sum.splits)

lemma collect_Inr_nth:
  "collect rs = Inr vs \<Longrightarrow> i < length rs \<Longrightarrow> rs ! i = Inr (vs ! i)"
proof (induction rs arbitrary: vs i)
  case Nil
  then show ?case by simp
next
  case (Cons r rs)
  then show ?case by (cases i) (auto split: sum.splits)
qed

lemma collect_map_member:
  assumes "collect (map f xs) = Inr vs" and "x \<in> set xs"
  shows "\<exists>v\<in>set vs. f x = Inr v"
proof -
  from assms(2) obtain i where i: "i < length xs" "xs ! i = x"
    by (auto simp: in_set_conv_nth)
  with collect_Inr_nth [OF assms(1), of i] have "f x = Inr (vs ! i)" by simp
  moreover have "vs ! i \<in> set vs"
    using collect_Inr_length [OF assms(1)] i by simp
  ultimately show ?thesis by blast
qed

lemma join_Cons: "join sep (x # xs) = (if xs = [] then x else x @ sep @ join sep xs)"
  by (cases xs) simp_all

lemma sublist_behind: "sublist r ys \<Longrightarrow> sublist r (xs @ ys)"
  by (rule sublist_order.order_trans [OF _ sublist_append_leftI])

lemma sublist_join: "r \<in> set parts \<Longrightarrow> sublist r (join sep parts)"
proof (induction parts)
  case Nil
  then show ?case by simp
next
  case (Cons x xs)
  show ?case
  proof (cases "r = x")
    case True
    then show ?thesis by (simp add: join_Cons sublist_append_rightI)
  next
    case False
    with Cons have "sublist r (join sep xs)" by simp
    then have "sublist r (x @ sep @ join sep xs)"
      by (intro sublist_behind)
    moreover from False Cons.prems have "xs \<noteq> []" by auto
    ultimately show ?thesis by (simp add: join_Cons)
  qed
qed

lemma render_nav_dir:
  assumes "render_nav (Node nm p True cs) current_md root depth = Inr html"
  shows "\<exists>rendered.
           collect (map (\<lambda>child. render_nav child current_md root (depth + 1)) cs) = Inr rendered
         \<and> html = details_head (Node nm p True cs) current_md depth @ newline
                  @ join newline (rendered @ [''</details>''])"
  using assms by (auto split: sum.splits simp: join_Cons)

lemma render_nav_sub:
  assumes "(m, k) \<in> set (nodes_at nd depth)"
      and "render_nav nd current_md root depth = Inr html"
  shows "\<exists>s. render_nav m current_md root k = Inr s \<and> sublist s html"
  using assms
proof (induction nd arbitrary: depth html)
  case (Node nm p d cs)
  show ?case
  proof (cases "(m, k) = (Node nm p d cs, depth)")
    case True
    with Node.prems show ?thesis by auto
  next
    case False
    with Node.prems(1) have d: "d"
      and "\<exists>child\<in>set cs. (m, k) \<in> set (nodes_at child (depth + 1))"
      by (auto split: if_splits)
    then obtain child where child: "child \<in> set cs"
      and mem: "(m, k) \<in> set (nodes_at child (depth + 1))" by blast
    from Node.prems(2) d have "render_nav (Node nm p True cs) current_md root depth = Inr html"
      by simp
    then obtain rendered where
      coll: "collect (map (\<lambda>child. render_nav child current_md root (depth + 1)) cs) = Inr rendered"
      and html: "html = details_head (Node nm p True cs) current_md depth @ newline
                  @ join newline (rendered @ [''</details>''])"
      using render_nav_dir by blast
    from collect_map_member [OF coll child] obtain v where
      v: "v \<in> set rendered" "render_nav child current_md root (depth + 1) = Inr v"
      by blast
    from Node.IH [OF child mem v(2)] obtain s where
      s: "render_nav m current_md root k = Inr s" "sublist s v" by blast
    from v(1) have "sublist v (join newline (rendered @ [''</details>'']))"
      by (intro sublist_join) simp
    then have "sublist v html"
      unfolding html by (intro sublist_behind)
    with s show ?thesis by (blast intro: sublist_order.order_trans)
  qed
qed

lemma details_head_open:
  "prefix ''<details open'' (details_head nd current_md depth @ rest)
     \<longleftrightarrow> (\<exists>c. current_md = Some c \<and> prefix (path nd) c)"
  by (cases current_md)
     (auto simp: details_head_def open_attr_def style_attr_def is_relative_to_prefix)

text \<open>
  C1. Whenever a node renders, every directory node below it (the node itself included)
  is rendered inside the result, as a \<open>details\<close> element that carries \<open>open\<close> if and only if
  there is a current document and the path of the directory is an initial part of the
  path of that document.
\<close>

theorem open_branch:
  assumes "render_nav nd current_md root depth = Inr html"
      and "(d, k) \<in> set (nodes_at nd depth)"
      and "is_dir d"
  shows "\<exists>s. render_nav d current_md root k = Inr s \<and> sublist s html
           \<and> prefix ''<details'' s
           \<and> (prefix ''<details open'' s
                \<longleftrightarrow> (\<exists>c. current_md = Some c \<and> prefix (path d) c))"
proof -
  from render_nav_sub [OF assms(2) assms(1)] obtain s where
    s: "render_nav d current_md root k = Inr s" "sublist s html" by blast
  obtain nm p cs where d: "d = Node nm p True cs"
    using assms(3) by (cases d) auto
  from s(1) obtain rendered where
    "s = details_head d current_md k @ newline @ join newline (rendered @ [''</details>''])"
    unfolding d using render_nav_dir by blast
  then have "prefix ''<details open'' s \<longleftrightarrow> (\<exists>c. current_md = Some c \<and> prefix (path d) c)"
    and "prefix ''<details'' s"
    using details_head_open by (simp_all add: details_head_def)
  with s show ?thesis by blast
qed


lemmas eval_nav = details_head_def open_attr_def style_attr_def class_attr_def render_link_def
  is_relative_to_def relative_to_def with_suffix_def as_posix_def str_int_def newline_def
  path_name_def path_suffix_def path_stem_def

theorem open_branch_witness:
  "render_nav
     (Node ''a'' [''c'', ''a''] True
        [Node ''b'' [''c'', ''a'', ''b''] True [], Node ''x'' [''c'', ''a'', ''x''] True []])
     (Some [''c'', ''a'', ''b'', ''doc.md'']) [''c''] 0
   = Inr (join newline
       [''<details open><summary title=\"a\">a</summary>'',
        ''<details open style=\"margin-left:16px\"><summary title=\"b\">b</summary>'',
        ''</details>'',
        ''<details style=\"margin-left:16px\"><summary title=\"x\">x</summary>'',
        ''</details>'',
        ''</details>''])
   \<and> (Node ''b'' [''c'', ''a'', ''b''] True [], 1)
       \<in> set (nodes_at
            (Node ''a'' [''c'', ''a''] True
               [Node ''b'' [''c'', ''a'', ''b''] True [], Node ''x'' [''c'', ''a'', ''x''] True []]) 0)
   \<and> (\<exists>s. render_nav (Node ''b'' [''c'', ''a'', ''b''] True [])
              (Some [''c'', ''a'', ''b'', ''doc.md'']) [''c''] 1 = Inr s
          \<and> prefix ''<details open'' s)
   \<and> (\<exists>s. render_nav (Node ''x'' [''c'', ''a'', ''x''] True [])
              (Some [''c'', ''a'', ''b'', ''doc.md'']) [''c''] 1 = Inr s
          \<and> \<not> prefix ''<details open'' s)"
proof -
  let ?b = "Node ''b'' [''c'', ''a'', ''b''] True []"
  let ?x = "Node ''x'' [''c'', ''a'', ''x''] True []"
  let ?a = "Node ''a'' [''c'', ''a''] True [?b, ?x]"
  let ?cur = "Some [''c'', ''a'', ''b'', ''doc.md'']"
  let ?html = "join newline
       [''<details open><summary title=\"a\">a</summary>'',
        ''<details open style=\"margin-left:16px\"><summary title=\"b\">b</summary>'',
        ''</details>'',
        ''<details style=\"margin-left:16px\"><summary title=\"x\">x</summary>'',
        ''</details>'',
        ''</details>'']"
  have r: "render_nav ?a ?cur [''c''] 0 = Inr ?html"
    by (simp add: eval_nav)
  have b: "(?b, 1) \<in> set (nodes_at ?a 0)" and x: "(?x, 1) \<in> set (nodes_at ?a 0)"
    by simp_all
  from open_branch [OF r b] have "\<exists>s. render_nav ?b ?cur [''c''] 1 = Inr s
          \<and> prefix ''<details open'' s"
    by auto
  moreover from open_branch [OF r x] have "\<exists>s. render_nav ?x ?cur [''c''] 1 = Inr s
          \<and> \<not> prefix ''<details open'' s"
    by auto
  ultimately show ?thesis using r b by blast
qed

section \<open>The depth only sets the indentation\<close>

lemma fill_append: "fill d (ps @ qs) = fill d ps @ fill d qs"
  by (simp add: fill_def)

lemma fill_Text: "fill d (Text s # ps) = s @ fill d ps"
  by (simp add: fill_def)

lemma fill_Style: "fill d (Style k # ps) = style_attr (d + int k) @ fill d ps"
  by (simp add: fill_def)

lemma fill_Nil: "fill d [] = []"
  by (simp add: fill_def)

lemma fill_deeper: "fill (d + 1) ps = fill d (map deeper ps)"
proof -
  have "(case p of Text s \<Rightarrow> s | Style k \<Rightarrow> style_attr (d + 1 + int k))
      = (case deeper p of Text s \<Rightarrow> s | Style k \<Rightarrow> style_attr (d + int k))" for p
    by (cases p) (simp_all add: deeper_def algebra_simps)
  then show ?thesis by (simp add: fill_def comp_def)
qed

lemma join_behind: "join sep (x # xs) = x @ concat (map (\<lambda>r. sep @ r) xs)"
  by (induction xs arbitrary: x) (simp_all add: join_Cons)

lemma render_link_pieces:
  "(\<exists>e. \<forall>d. render_link nd current_md root d = Inl e)
   \<or> (\<exists>ps. \<forall>d. render_link nd current_md root d = Inr (fill d ps))"
proof (cases "relative_to (path nd) root")
  case (Inl e)
  then show ?thesis by (simp add: render_link_def)
next
  case rel: (Inr rel)
  show ?thesis
  proof (cases "with_suffix rel ''.html''")
    case (Inl e)
    with rel show ?thesis by (simp add: render_link_def)
  next
    case href: (Inr href)
    show ?thesis
    proof (cases "class_attr rel current_md root")
      case (Inl e)
      with rel href show ?thesis by (simp add: render_link_def)
    next
      case (Inr cls)
      have "render_link nd current_md root d
          = Inr (fill d [Text (''<a href=\"'' @ as_posix href @ ''\"'' @ cls), Style 0,
                         Text ('' title=\"'' @ name nd @ ''\">'' @ name nd @ ''</a>'')])" for d
        using rel href Inr by (simp add: render_link_def fill_def)
      then show ?thesis by blast
    qed
  qed
qed

lemma collect_pieces:
  assumes "\<forall>c\<in>set cs. (\<exists>e. \<forall>d. f c d = Inl e) \<or> (\<exists>ps. \<forall>d. f c d = Inr (fill d ps))"
  shows "(\<exists>e. \<forall>d. collect (map (\<lambda>c. f c d) cs) = Inl e)
       \<or> (\<exists>pss. \<forall>d. collect (map (\<lambda>c. f c d) cs) = Inr (map (fill d) pss))"
  using assms
proof (induction cs)
  case Nil
  have "\<forall>d. collect (map (\<lambda>c. f c d) []) = Inr (map (fill d) [])" by simp
  then show ?case by blast
next
  case (Cons c cs)
  from Cons.prems have c: "(\<exists>e. \<forall>d. f c d = Inl e) \<or> (\<exists>ps. \<forall>d. f c d = Inr (fill d ps))"
    by simp
  from Cons have ih: "(\<exists>e. \<forall>d. collect (map (\<lambda>c. f c d) cs) = Inl e)
       \<or> (\<exists>pss. \<forall>d. collect (map (\<lambda>c. f c d) cs) = Inr (map (fill d) pss))"
    by simp
  from c show ?case
  proof
    assume "\<exists>e. \<forall>d. f c d = Inl e"
    then obtain e where "\<forall>d. f c d = Inl e" ..
    then have "\<forall>d. collect (map (\<lambda>c. f c d) (c # cs)) = Inl e" by simp
    then show ?thesis by blast
  next
    assume "\<exists>ps. \<forall>d. f c d = Inr (fill d ps)"
    then obtain ps where ps: "\<forall>d. f c d = Inr (fill d ps)" ..
    from ih show ?thesis
    proof
      assume "\<exists>e. \<forall>d. collect (map (\<lambda>c. f c d) cs) = Inl e"
      then obtain e where "\<forall>d. collect (map (\<lambda>c. f c d) cs) = Inl e" ..
      with ps have "\<forall>d. collect (map (\<lambda>c. f c d) (c # cs)) = Inl e" by simp
      then show ?thesis by blast
    next
      assume "\<exists>pss. \<forall>d. collect (map (\<lambda>c. f c d) cs) = Inr (map (fill d) pss)"
      then obtain pss where "\<forall>d. collect (map (\<lambda>c. f c d) cs) = Inr (map (fill d) pss)" ..
      with ps have "\<forall>d. collect (map (\<lambda>c. f c d) (c # cs)) = Inr (map (fill d) (ps # pss))"
        by simp
      then show ?thesis by blast
    qed
  qed
qed

lemma render_nav_pieces:
  "(\<exists>e. \<forall>d. render_nav nd current_md root d = Inl e)
   \<or> (\<exists>ps. \<forall>d. render_nav nd current_md root d = Inr (fill d ps))"
proof (induction nd)
  case (Node nm p dir cs)
  show ?case
  proof (cases dir)
    case False
    with render_link_pieces [of "Node nm p dir cs" current_md root] show ?thesis by simp
  next
    case True
    let ?f = "\<lambda>c d. render_nav c current_md root (d + 1)"
    have "\<forall>c\<in>set cs. (\<exists>e. \<forall>d. ?f c d = Inl e) \<or> (\<exists>ps. \<forall>d. ?f c d = Inr (fill d ps))"
    proof
      fix c assume "c \<in> set cs"
      from Node.IH [OF this] show "(\<exists>e. \<forall>d. ?f c d = Inl e) \<or> (\<exists>ps. \<forall>d. ?f c d = Inr (fill d ps))"
      proof
        assume "\<exists>e. \<forall>d. render_nav c current_md root d = Inl e"
        then show ?thesis by blast
      next
        assume "\<exists>ps. \<forall>d. render_nav c current_md root d = Inr (fill d ps)"
        then obtain ps where "\<forall>d. render_nav c current_md root d = Inr (fill d ps)" ..
        then have "\<forall>d. ?f c d = Inr (fill d (map deeper ps))"
          by (simp add: fill_deeper)
        then show ?thesis by blast
      qed
    qed
    from collect_pieces [of cs ?f, OF this] show ?thesis
    proof
      assume "\<exists>e. \<forall>d. collect (map (\<lambda>c. ?f c d) cs) = Inl e"
      then obtain e where "\<forall>d. collect (map (\<lambda>c. ?f c d) cs) = Inl e" ..
      with True have "\<forall>d. render_nav (Node nm p dir cs) current_md root d = Inl e" by simp
      then show ?thesis by blast
    next
      assume "\<exists>pss. \<forall>d. collect (map (\<lambda>c. ?f c d) cs) = Inr (map (fill d) pss)"
      then obtain pss where pss: "\<forall>d. collect (map (\<lambda>c. ?f c d) cs) = Inr (map (fill d) pss)" ..
      let ?ps = "[Text (''<details'' @ open_attr (Node nm p dir cs) current_md), Style 0,
                  Text (''><summary title=\"'' @ nm @ ''\">'' @ nm @ ''</summary>'')]
                 @ concat (map (\<lambda>ps. Text newline # ps) pss)
                 @ [Text newline, Text ''</details>'']"
      have body: "concat (map ((@) newline \<circ> fill d) qss)
          = fill d (concat (map ((#) (Text newline)) qss))" for d qss
        by (induction qss) (simp_all add: fill_Nil fill_append fill_Text)
      have "render_nav (Node nm p dir cs) current_md root d = Inr (fill d ?ps)" for d
      proof -
        have "render_nav (Node nm p dir cs) current_md root d
            = Inr (join newline ([details_head (Node nm p dir cs) current_md d]
                     @ map (fill d) pss @ [''</details>'']))"
          using True pss by simp
        also have "join newline ([details_head (Node nm p dir cs) current_md d]
                     @ map (fill d) pss @ [''</details>''])
            = details_head (Node nm p dir cs) current_md d
              @ concat (map (\<lambda>r. newline @ r) (map (fill d) pss)) @ newline @ ''</details>''"
          by (simp add: join_behind)
        also have "\<dots> = fill d ?ps"
          by (simp add: body fill_append fill_Text fill_Style fill_Nil details_head_def)
        finally show ?thesis .
      qed
      then show ?thesis by blast
    qed
  qed
qed

lemma render_link_Inr:
  assumes "render_nav (Node nm p False cs) current_md root d = Inr s"
  shows "\<exists>rel href cls. relative_to p root = Inr rel \<and> with_suffix rel ''.html'' = Inr href
           \<and> class_attr rel current_md root = Inr cls
           \<and> s = ''<a href=\"'' @ as_posix href @ ''\"'' @ cls @ style_attr d
                  @ '' title=\"'' @ nm @ ''\">'' @ nm @ ''</a>''"
  using assms by (auto simp: render_link_def split: sum.splits)

lemma render_nav_dir_any_depth:
  assumes "render_nav (Node nm p True cs) current_md root d1 = Inr s1"
  shows "\<exists>s2. render_nav (Node nm p True cs) current_md root d2 = Inr s2"
proof -
  from render_nav_pieces [of "Node nm p True cs" current_md root] show ?thesis
  proof
    assume "\<exists>e. \<forall>d. render_nav (Node nm p True cs) current_md root d = Inl e"
    with assms show ?thesis by auto
  next
    assume "\<exists>ps. \<forall>d. render_nav (Node nm p True cs) current_md root d = Inr (fill d ps)"
    then show ?thesis by blast
  qed
qed

text \<open>
  C8. For a node, a current document and a root, either rendering fails at every depth
  with the same error, or there is one list of pieces, the same for every depth, such
  that the markup at a depth is that list with the style attribute \<open>style_attr (depth + k)\<close>
  put in for the node \<open>k\<close> levels down: two renderings at depths \<open>d1\<close> and \<open>d2\<close> agree in
  every character outside the style attributes. For each node this says: a link rendered at
  \<open>d1\<close> and at \<open>d2\<close> has the same target and the same class attribute (the active marker or
  nothing), and a directory rendered at \<open>d1\<close> and at \<open>d2\<close> has the same open attribute.
\<close>

theorem depth_only_styles:
  "((\<exists>e. \<forall>d. render_nav nd current_md root d = Inl e)
      \<or> (\<exists>ps. \<forall>d. render_nav nd current_md root d = Inr (fill d ps)))
   \<and> (render_nav (Node nm p False cs) current_md root d1 = Inr s1 \<longrightarrow>
        (\<exists>rel href cls.
            relative_to p root = Inr rel \<and> with_suffix rel ''.html'' = Inr href
          \<and> class_attr rel current_md root = Inr cls
          \<and> s1 = ''<a href=\"'' @ as_posix href @ ''\"'' @ cls @ style_attr d1
                 @ '' title=\"'' @ nm @ ''\">'' @ nm @ ''</a>''
          \<and> render_nav (Node nm p False cs) current_md root d2
              = Inr (''<a href=\"'' @ as_posix href @ ''\"'' @ cls @ style_attr d2
                     @ '' title=\"'' @ nm @ ''\">'' @ nm @ ''</a>'')))
   \<and> (render_nav (Node nm p True cs) current_md root d1 = Inr s1 \<longrightarrow>
        (\<exists>s2. render_nav (Node nm p True cs) current_md root d2 = Inr s2
          \<and> prefix (''<details'' @ open_attr (Node nm p True cs) current_md @ style_attr d1 @ ''>'') s1
          \<and> prefix (''<details'' @ open_attr (Node nm p True cs) current_md @ style_attr d2 @ ''>'') s2
          \<and> (prefix ''<details open'' s1 \<longleftrightarrow> prefix ''<details open'' s2)))"
proof -
  have link: "\<exists>rel href cls.
            relative_to p root = Inr rel \<and> with_suffix rel ''.html'' = Inr href
          \<and> class_attr rel current_md root = Inr cls
          \<and> s1 = ''<a href=\"'' @ as_posix href @ ''\"'' @ cls @ style_attr d1
                 @ '' title=\"'' @ nm @ ''\">'' @ nm @ ''</a>''
          \<and> render_nav (Node nm p False cs) current_md root d2
              = Inr (''<a href=\"'' @ as_posix href @ ''\"'' @ cls @ style_attr d2
                     @ '' title=\"'' @ nm @ ''\">'' @ nm @ ''</a>'')"
    if r: "render_nav (Node nm p False cs) current_md root d1 = Inr s1"
  proof -
    from render_link_Inr [OF r] obtain rel href cls where
      a: "relative_to p root = Inr rel" "with_suffix rel ''.html'' = Inr href"
         "class_attr rel current_md root = Inr cls"
      and s1: "s1 = ''<a href=\"'' @ as_posix href @ ''\"'' @ cls @ style_attr d1
                 @ '' title=\"'' @ nm @ ''\">'' @ nm @ ''</a>''"
      by blast
    from a have "render_nav (Node nm p False cs) current_md root d2
              = Inr (''<a href=\"'' @ as_posix href @ ''\"'' @ cls @ style_attr d2
                     @ '' title=\"'' @ nm @ ''\">'' @ nm @ ''</a>'')"
      by (simp add: render_link_def)
    with a s1 show ?thesis by blast
  qed
  have dir: "\<exists>s2. render_nav (Node nm p True cs) current_md root d2 = Inr s2
          \<and> prefix (''<details'' @ open_attr (Node nm p True cs) current_md @ style_attr d1 @ ''>'') s1
          \<and> prefix (''<details'' @ open_attr (Node nm p True cs) current_md @ style_attr d2 @ ''>'') s2
          \<and> (prefix ''<details open'' s1 \<longleftrightarrow> prefix ''<details open'' s2)"
    if r: "render_nav (Node nm p True cs) current_md root d1 = Inr s1"
  proof -
    from render_nav_dir_any_depth [OF r] obtain s2 where
      s2: "render_nav (Node nm p True cs) current_md root d2 = Inr s2" by blast
    from render_nav_dir [OF r] obtain r1 where
      s1: "s1 = details_head (Node nm p True cs) current_md d1 @ newline
                @ join newline (r1 @ [''</details>''])" by blast
    from render_nav_dir [OF s2] obtain r2 where
      s2': "s2 = details_head (Node nm p True cs) current_md d2 @ newline
                @ join newline (r2 @ [''</details>''])" by blast
    have p1: "prefix (''<details'' @ open_attr (Node nm p True cs) current_md @ style_attr d1 @ ''>'') s1"
      unfolding s1 by (simp add: details_head_def)
    have p2: "prefix (''<details'' @ open_attr (Node nm p True cs) current_md @ style_attr d2 @ ''>'') s2"
      unfolding s2' by (simp add: details_head_def)
    have "prefix ''<details open'' s1 \<longleftrightarrow> prefix ''<details open'' s2"
      unfolding s1 s2' details_head_open ..
    with s2 p1 p2 show ?thesis by blast
  qed
  from render_nav_pieces [of nd current_md root] link dir show ?thesis by blast
qed

theorem depth_only_styles_witness:
  "render_nav (Node ''intro'' [''c'', ''g'', ''intro.md''] False [])
       (Some [''c'', ''g'', ''intro.md'']) [''c''] 0
     = Inr ''<a href=\"g/intro.html\" class=\"active\" title=\"intro\">intro</a>''
   \<and> render_nav (Node ''intro'' [''c'', ''g'', ''intro.md''] False [])
       (Some [''c'', ''g'', ''intro.md'']) [''c''] 2
     = Inr ''<a href=\"g/intro.html\" class=\"active\" style=\"margin-left:32px\" title=\"intro\">intro</a>''
   \<and> (\<exists>s2. render_nav
              (Node ''g'' [''c'', ''g''] True [Node ''intro'' [''c'', ''g'', ''intro.md''] False []])
              (Some [''c'', ''g'', ''intro.md'']) [''c''] 2 = Inr s2
          \<and> prefix ''<details open style=\"margin-left:32px\">'' s2)
   \<and> (\<exists>ps. \<forall>d. render_nav
              (Node ''g'' [''c'', ''g''] True [Node ''intro'' [''c'', ''g'', ''intro.md''] False []])
              (Some [''c'', ''g'', ''intro.md'']) [''c''] d = Inr (fill d ps))"
proof -
  let ?i = "Node ''intro'' [''c'', ''g'', ''intro.md''] False []"
  let ?g = "Node ''g'' [''c'', ''g''] True [?i]"
  let ?cur = "Some [''c'', ''g'', ''intro.md'']"
  let ?s1 = "''<a href=\"g/intro.html\" class=\"active\" title=\"intro\">intro</a>''"
  let ?h1 = "join newline
       [''<details open><summary title=\"g\">g</summary>'',
        ''<a href=\"g/intro.html\" class=\"active\" style=\"margin-left:16px\" title=\"intro\">intro</a>'',
        ''</details>'']"
  have i: "render_nav ?i ?cur [''c''] 0 = Inr ?s1"
    by (simp add: eval_nav class_attr_def)
  have g: "render_nav ?g ?cur [''c''] 0 = Inr ?h1"
    by (simp add: eval_nav class_attr_def)
  have o: "open_attr ?g ?cur = '' open''"
    by (simp add: eval_nav)
  have st: "style_attr 2 = '' style=\"margin-left:32px\"''" "style_attr 0 = []"
    by (simp_all add: eval_nav)
  note inst = depth_only_styles [of ?g ?cur "[''c'']" "''intro''" "[''c'', ''g'', ''intro.md'']" "[]" 0 ?s1 2]
  from inst i have a: "render_nav ?i ?cur [''c''] 2
     = Inr ''<a href=\"g/intro.html\" class=\"active\" style=\"margin-left:32px\" title=\"intro\">intro</a>''"
    by (simp add: eval_nav class_attr_def)
  from inst have "(\<exists>e. \<forall>d. render_nav ?g ?cur [''c''] d = Inl e)
      \<or> (\<exists>ps. \<forall>d. render_nav ?g ?cur [''c''] d = Inr (fill d ps))"
    by (rule conjunct1)
  then have b: "\<exists>ps. \<forall>d. render_nav ?g ?cur [''c''] d = Inr (fill d ps)"
  proof
    assume "\<exists>e. \<forall>d. render_nav ?g ?cur [''c''] d = Inl e"
    then obtain e where "render_nav ?g ?cur [''c''] 0 = Inl e" by blast
    with g show ?thesis by (simp only: sum.distinct)
  qed
  from depth_only_styles [of ?g ?cur "[''c'']" "''g''" "[''c'', ''g'']" "[?i]" 0 ?h1 2]
  have "render_nav ?g ?cur [''c''] 0 = Inr ?h1 \<longrightarrow>
        (\<exists>s2. render_nav ?g ?cur [''c''] 2 = Inr s2
          \<and> prefix (''<details'' @ open_attr ?g ?cur @ style_attr 0 @ ''>'') ?h1
          \<and> prefix (''<details'' @ open_attr ?g ?cur @ style_attr 2 @ ''>'') s2
          \<and> (prefix ''<details open'' ?h1 \<longleftrightarrow> prefix ''<details open'' s2))"
    by (rule conjunct2 [THEN conjunct2])
  with g obtain s2 where s2: "render_nav ?g ?cur [''c''] 2 = Inr s2"
    and "prefix (''<details'' @ open_attr ?g ?cur @ style_attr 2 @ ''>'') s2"
    by blast
  then have "prefix ''<details open style=\"margin-left:32px\">'' s2"
    unfolding o st by simp
  with s2 have c: "\<exists>s2. render_nav ?g ?cur [''c''] 2 = Inr s2
          \<and> prefix ''<details open style=\"margin-left:32px\">'' s2"
    by blast
  from i a b c show ?thesis by blast
qed

section \<open>Links, base path and names in the markup\<close>

lemma stem_suffix: "path_stem [f] @ path_suffix [f] = f"
  by (simp add: path_stem_def path_suffix_def path_name_def split: option.splits)

lemma with_suffix_html:
  "with_suffix (dirs @ [f]) ''.html''
     = (if f = [] then Inl ValueError else Inr (dirs @ [path_stem [f] @ ''.html'']))"
proof -
  have "take (length f - length (path_suffix [f])) f = path_stem [f]"
    by (simp add: path_stem_def path_suffix_def path_name_def split: option.splits)
  moreover have "path_suffix [f] = [] \<Longrightarrow> path_stem [f] = f"
    using stem_suffix [of f] by simp
  moreover have "path_suffix (dirs @ [f]) = path_suffix [f]"
    by (simp add: path_suffix_def path_name_def)
  ultimately show ?thesis
    by (simp add: with_suffix_def path_name_def Let_def)
qed

lemma render_link_under_root:
  assumes "render_nav (Node nm (root @ dirs @ [f]) False cs) current_md root depth = Inr s"
  shows "\<exists>cls. s = ''<a href=\"'' @ join ''/'' (dirs @ [path_stem [f] @ ''.html'']) @ ''\"'' @ cls
           @ style_attr depth @ '' title=\"'' @ nm @ ''\">'' @ nm @ ''</a>''"
  using assms
  by (auto simp: render_link_def relative_to_def with_suffix_html as_posix_def
      split: sum.splits if_splits)

lemma write_text_Inr: "write_text p text fs = Inr fs' \<Longrightarrow> fs' = fs(p \<mapsto> OFile text)"
  by (auto simp: write_text_def split: if_splits)

lemma write_page_Inr:
  assumes "write_page convert tree input_dir (input_dir @ rel, e) fs = Inr fs'"
  shows "\<exists>out fs1 text nav.
           with_suffix rel ''.html'' = Inr out
         \<and> mkdir_p (butlast out) fs = Inr fs1
         \<and> read_text e = Inr text
         \<and> nav_html tree (input_dir @ rel) input_dir = Inr nav
         \<and> fs' = fs1(out \<mapsto> OFile (format_template
                    (page_title (md_to_html convert text) (input_dir @ rel)) nav
                    (md_to_html convert text) (base_href rel)))"
  using assms
  by (auto simp: write_page_def relative_to_def Let_def split: sum.splits
      dest: write_text_Inr)

lemma template_0_end: "\<exists>pre. template_0 = pre @ ''<base href=\"''"
proof
  show "template_0 = take (length template_0 - 12) template_0 @ ''<base href=\"''"
    by (simp add: template_0_def newline_def)
qed

lemma template_1_cut: "template_1 = ''\"/>'' @ newline @ ''  <title>''"
  by (simp add: template_1_def)


lemma base_slot:
  "sublist (''<base href=\"'' @ b @ ''\"/>'') (format_template t n bd b)"
proof -
  obtain pre where "template_0 = pre @ ''<base href=\"''"
    using template_0_end by blast
  then have "format_template t n bd b
      = pre @ (''<base href=\"'' @ b @ ''\"/>'')
        @ (newline @ ''  <title>'' @ t @ template_2 @ n @ template_3 @ bd @ template_4)"
    by (simp add: format_template_def template_1_cut)
  then show ?thesis by (simp only: sublist_appendI)
qed


lemma base_href_depth:
  "base_href (dirs @ [f]) = (if dirs = [] then ''./'' else concat (replicate (length dirs) ''../''))"
  by (simp add: base_href_def)

text \<open>
  C2. A document node at depth \<open>n\<close> has a path \<open>root @ dirs @ [f]\<close> with \<open>n\<close> directories
  \<open>dirs\<close>. Its link is the path relative to the root, joined by slashes, with the suffix of
  the file name replaced by \<open>.html\<close>. The base path of its page is \<open>../\<close> taken \<open>n\<close> times,
  or \<open>./\<close> when \<open>n\<close> is zero. The page is written below the output directory at the very
  path the link names, with that base path in its \<open>base\<close> element: \<open>n\<close> steps up from the
  directory of the page lead to the output root, from where the links are read.
\<close>

theorem link_and_base_path:
  "(render_nav (Node nm (root @ dirs @ [f]) False cs) current_md root depth = Inr s \<longrightarrow>
      prefix (''<a href=\"'' @ join ''/'' (dirs @ [path_stem [f] @ ''.html'']) @ ''\"'') s)
   \<and> path_stem [f] @ path_suffix [f] = f
   \<and> base_href (dirs @ [f])
       = (if length dirs = 0 then ''./'' else concat (replicate (length dirs) ''../''))
   \<and> (write_page convert tree root (root @ dirs @ [f], e) fs = Inr fs' \<longrightarrow>
        (\<exists>page. fs' (dirs @ [path_stem [f] @ ''.html'']) = Some (OFile page)
           \<and> sublist (''<base href=\"'' @ base_href (dirs @ [f]) @ ''\"/>'') page))"
proof -
  have "prefix (''<a href=\"'' @ join ''/'' (dirs @ [path_stem [f] @ ''.html'']) @ ''\"'') s"
    if "render_nav (Node nm (root @ dirs @ [f]) False cs) current_md root depth = Inr s"
    using render_link_under_root [OF that] by (auto simp: prefix_def)
  moreover have "\<exists>page. fs' (dirs @ [path_stem [f] @ ''.html'']) = Some (OFile page)
           \<and> sublist (''<base href=\"'' @ base_href (dirs @ [f]) @ ''\"/>'') page"
    if "write_page convert tree root (root @ dirs @ [f], e) fs = Inr fs'"
  proof -
    from write_page_Inr [of convert tree root "dirs @ [f]" e fs fs'] that
    obtain out fs1 content nav where
      out: "with_suffix (dirs @ [f]) ''.html'' = Inr out"
      and fs': "fs' = fs1(out \<mapsto> OFile (format_template
                    (page_title (md_to_html convert content) (root @ dirs @ [f])) nav
                    (md_to_html convert content) (base_href (dirs @ [f]))))"
      by auto
    from out have "out = dirs @ [path_stem [f] @ ''.html'']"
      by (simp add: with_suffix_html split: if_splits)
    with fs' have "fs' (dirs @ [path_stem [f] @ ''.html'']) = Some (OFile (format_template
                    (page_title (md_to_html convert content) (root @ dirs @ [f])) nav
                    (md_to_html convert content) (base_href (dirs @ [f]))))"
      by simp
    moreover have "sublist (''<base href=\"'' @ base_href (dirs @ [f]) @ ''\"/>'')
        (format_template (page_title (md_to_html convert content) (root @ dirs @ [f])) nav
           (md_to_html convert content) (base_href (dirs @ [f])))"
      by (rule base_slot)
    ultimately show ?thesis by blast
  qed
  ultimately show ?thesis
    by (simp add: stem_suffix base_href_depth)
qed


lemmas eval_page = write_page_def write_text_def mkdir_p.simps initial_output_def md_to_html_def
  match_code_block_def page_title_def match_heading_def open_tag_def close_tag_at_def
  nav_html_def base_href_def

theorem link_and_base_path_witness:
  "render_nav (Node ''Intro'' [''content'', ''guide'', ''deep'', ''Intro.MD''] False []) None
     [''content''] 2
   = Inr ''<a href=\"guide/deep/Intro.html\" style=\"margin-left:32px\" title=\"Intro\">Intro</a>''
   \<and> prefix ''<a href=\"guide/deep/Intro.html\"''
       ''<a href=\"guide/deep/Intro.html\" style=\"margin-left:32px\" title=\"Intro\">Intro</a>''
   \<and> base_href [''guide'', ''deep'', ''Intro.MD''] = ''../../''
   \<and> base_href [''Intro.MD''] = ''./''
   \<and> (\<exists>fs'. write_page (\<lambda>t. t) (Node ''content'' [''content''] True []) [''content'']
              ([''content'', ''guide'', ''deep'', ''Intro.MD''], File ''Intro.MD'' ''hi'')
              (initial_output ''css'') = Inr fs'
          \<and> (\<exists>page. fs' [''guide'', ''deep'', ''Intro.html''] = Some (OFile page)
                \<and> sublist ''<base href=\"../../\"/>'' page))"
proof -
  let ?nd = "Node ''Intro'' [''content'', ''guide'', ''deep'', ''Intro.MD''] False []"
  let ?s = "''<a href=\"guide/deep/Intro.html\" style=\"margin-left:32px\" title=\"Intro\">Intro</a>''"
  have r: "render_nav ?nd None [''content''] 2 = Inr ?s"
    by (simp add: eval_nav)
  obtain fs' where w: "write_page (\<lambda>t. t) (Node ''content'' [''content''] True []) [''content'']
              ([''content'', ''guide'', ''deep'', ''Intro.MD''], File ''Intro.MD'' ''hi'')
              (initial_output ''css'') = Inr fs'"
    by (simp add: eval_page eval_nav)
  have two: "concat (replicate 2 x) = x @ x" for x :: string
    by (simp add: numeral_2_eq_2)
  note inst = link_and_base_path [of "''Intro''" "[''content'']" "[''guide'', ''deep'']" "''Intro.MD''"
      "[]" None 2 ?s "\<lambda>t. t" "Node ''content'' [''content''] True []" "File ''Intro.MD'' ''hi''"
      "initial_output ''css''" fs']
  from inst r have "prefix ''<a href=\"guide/deep/Intro.html\"'' ?s"
    by (simp add: eval_nav)
  moreover from inst w have "\<exists>page. fs' [''guide'', ''deep'', ''Intro.html''] = Some (OFile page)
                \<and> sublist ''<base href=\"../../\"/>'' page"
    by (simp add: base_href_def two path_stem_def path_suffix_def path_name_def)
  moreover have "base_href [''guide'', ''deep'', ''Intro.MD''] = ''../../''"
    "base_href [''Intro.MD''] = ''./''"
    by (simp_all add: base_href_def two)
  ultimately show ?thesis using r w by blast
qed




section \<open>Copy buttons\<close>

















section \<open>The page title\<close>

lemma close_tag_at_iff:
  "close_tag_at s \<longleftrightarrow> (\<exists>d rest. s = ''</h'' @ [d] @ ''>'' @ rest \<and> d \<in> set ''123'')"
  by (auto simp: close_tag_at_def split: list.splits)

lemma open_tag_iff:
  "open_tag s = Some after
     \<longleftrightarrow> (\<exists>d attrs. s = ''<h'' @ [d] @ attrs @ ''>'' @ after
           \<and> d \<in> set ''123'' \<and> CHR ''>'' \<notin> set attrs)"
proof
  assume "open_tag s = Some after"
  then obtain a b d rest g where s: "s = a # b # d # rest" and ab: "[a, b] = ''<h''"
    and d: "d \<in> set ''123''" and dw: "dropWhile (\<lambda>x. x \<noteq> CHR ''>'') rest = g # after"
    by (auto simp: open_tag_def split: list.splits if_splits)
  let ?attrs = "takeWhile (\<lambda>x. x \<noteq> CHR ''>'') rest"
  from dw have "g = CHR ''>''"
    by (metis (mono_tags, lifting) hd_dropWhile list.distinct(1) list.sel(1))
  with dw have "rest = ?attrs @ ''>'' @ after"
    by (metis append_Cons append_Nil takeWhile_dropWhile_id)
  moreover have "CHR ''>'' \<notin> set ?attrs"
    by (auto dest: set_takeWhileD)
  ultimately have "s = ''<h'' @ [d] @ ?attrs @ ''>'' @ after \<and> d \<in> set ''123''
      \<and> CHR ''>'' \<notin> set ?attrs"
    using s ab d by simp
  then show "\<exists>d attrs. s = ''<h'' @ [d] @ attrs @ ''>'' @ after
           \<and> d \<in> set ''123'' \<and> CHR ''>'' \<notin> set attrs"
    by blast
next
  assume "\<exists>d attrs. s = ''<h'' @ [d] @ attrs @ ''>'' @ after
           \<and> d \<in> set ''123'' \<and> CHR ''>'' \<notin> set attrs"
  then obtain d attrs where s: "s = ''<h'' @ [d] @ attrs @ ''>'' @ after"
    and d: "d \<in> set ''123''" and a: "CHR ''>'' \<notin> set attrs"
    by blast
  from a have "dropWhile (\<lambda>x. x \<noteq> CHR ''>'') (attrs @ ''>'' @ after) = ''>'' @ after"
    by (induction attrs) auto
  with s d show "open_tag s = Some after"
    by (simp add: open_tag_def)
qed

lemma lazy_inner_sound:
  "lazy_inner s = Some t \<Longrightarrow>
     (\<exists>rest. s = t @ rest \<and> close_tag_at rest)
   \<and> CHR 0x0A \<notin> set t \<and> (\<forall>i<length t. \<not> close_tag_at (drop i s))"
proof (induction s arbitrary: t)
  case Nil
  then show ?case by simp
next
  case (Cons c cs)
  show ?case
  proof (cases "close_tag_at (c # cs)")
    case True
    with Cons.prems have "t = []" by simp
    with True show ?thesis by simp
  next
    case False
    with Cons.prems obtain t' where nl: "c \<noteq> CHR 0x0A" and t': "lazy_inner cs = Some t'"
      and t: "t = c # t'"
      by (auto split: if_splits option.splits)
    from Cons.IH [OF t'] obtain rest where rest: "cs = t' @ rest" "close_tag_at rest"
      and nl': "CHR 0x0A \<notin> set t'" and sh: "\<forall>i<length t'. \<not> close_tag_at (drop i cs)"
      by blast
    have "\<not> close_tag_at (drop i (c # cs))" if "i < length t" for i
      using that False sh t by (cases i) simp_all
    with rest nl nl' t show ?thesis by auto
  qed
qed

lemma lazy_inner_complete:
  "close_tag_at rest \<Longrightarrow> CHR 0x0A \<notin> set t
     \<Longrightarrow> \<forall>i<length t. \<not> close_tag_at (drop i (t @ rest))
     \<Longrightarrow> lazy_inner (t @ rest) = Some t"
proof (induction t)
  case Nil
  then show ?case by (cases rest) (simp_all add: close_tag_at_def)
next
  case (Cons c t)
  from Cons.prems(3) have 0: "\<not> close_tag_at ((c # t) @ rest)"
    by (metis drop0 length_greater_0_conv list.distinct(1))
  have "\<forall>i<length t. \<not> close_tag_at (drop i (t @ rest))"
  proof (intro allI impI)
    fix i assume "i < length t"
    then have "Suc i < length (c # t)" by simp
    with Cons.prems(3) have "\<not> close_tag_at (drop (Suc i) ((c # t) @ rest))" by blast
    then show "\<not> close_tag_at (drop i (t @ rest))" by simp
  qed
  with Cons.IH Cons.prems(1,2) have "lazy_inner (t @ rest) = Some t" by simp
  with 0 Cons.prems(2) show ?case by auto
qed

lemma lazy_inner_iff:
  "lazy_inner s = Some t
     \<longleftrightarrow> (\<exists>rest. s = t @ rest \<and> close_tag_at rest)
         \<and> CHR 0x0A \<notin> set t \<and> (\<forall>i<length t. \<not> close_tag_at (drop i s))"
  using lazy_inner_sound lazy_inner_complete by blast

lemma extract_title_None:
  "extract_title s = None \<longleftrightarrow> (\<forall>i. match_heading (drop i s) = None)"
proof (induction s)
  case Nil
  then show ?case by (simp add: match_heading_def open_tag_def)
next
  case (Cons c cs)
  have "(\<forall>i. match_heading (drop i (c # cs)) = None)
      \<longleftrightarrow> match_heading (c # cs) = None \<and> (\<forall>i. match_heading (drop i cs) = None)"
  proof
    assume a: "\<forall>i. match_heading (drop i (c # cs)) = None"
    have "match_heading (drop i cs) = None" for i
      using a [rule_format, of "Suc i"] by simp
    moreover from a [rule_format, of 0] have "match_heading (c # cs) = None" by simp
    ultimately show "match_heading (c # cs) = None \<and> (\<forall>i. match_heading (drop i cs) = None)"
      by blast
  next
    assume a: "match_heading (c # cs) = None \<and> (\<forall>i. match_heading (drop i cs) = None)"
    show "\<forall>i. match_heading (drop i (c # cs)) = None"
    proof
      fix i show "match_heading (drop i (c # cs)) = None"
        using a by (cases i) simp_all
    qed
  qed
  with Cons show ?case by (simp split: option.splits)
qed

lemma extract_title_Some:
  "extract_title s = Some t
     \<longleftrightarrow> (\<exists>i. match_heading (drop i s) = Some t
              \<and> (\<forall>j<i. match_heading (drop j s) = None))"
proof (induction s)
  case Nil
  then show ?case by (simp add: match_heading_def open_tag_def)
next
  case (Cons c cs)
  show ?case
  proof (cases "match_heading (c # cs)")
    case (Some t0)
    have "(\<exists>i. match_heading (drop i (c # cs)) = Some t
              \<and> (\<forall>j<i. match_heading (drop j (c # cs)) = None)) \<longleftrightarrow> t0 = t"
    proof
      assume "\<exists>i. match_heading (drop i (c # cs)) = Some t
              \<and> (\<forall>j<i. match_heading (drop j (c # cs)) = None)"
      then obtain i where i: "match_heading (drop i (c # cs)) = Some t"
        "\<forall>j<i. match_heading (drop j (c # cs)) = None" by blast
      have "i = 0"
      proof (rule ccontr)
        assume "i \<noteq> 0"
        with i(2) have "match_heading (drop 0 (c # cs)) = None" by blast
        with Some show False by simp
      qed
      with i(1) Some show "t0 = t" by simp
    next
      assume "t0 = t"
      with Some have "match_heading (drop 0 (c # cs)) = Some t
          \<and> (\<forall>j<0. match_heading (drop j (c # cs)) = None)" by simp
      then show "\<exists>i. match_heading (drop i (c # cs)) = Some t
              \<and> (\<forall>j<i. match_heading (drop j (c # cs)) = None)" by blast
    qed
    with Some show ?thesis by simp
  next
    case None
    have "(\<exists>i. match_heading (drop i (c # cs)) = Some t
              \<and> (\<forall>j<i. match_heading (drop j (c # cs)) = None))
        \<longleftrightarrow> (\<exists>i. match_heading (drop i cs) = Some t
              \<and> (\<forall>j<i. match_heading (drop j cs) = None))"
    proof
      assume "\<exists>i. match_heading (drop i (c # cs)) = Some t
              \<and> (\<forall>j<i. match_heading (drop j (c # cs)) = None)"
      then obtain i where i: "match_heading (drop i (c # cs)) = Some t"
        "\<forall>j<i. match_heading (drop j (c # cs)) = None" by blast
      with None obtain k where k: "i = Suc k" by (cases i) simp_all
      have "match_heading (drop j cs) = None" if "j < k" for j
        using i(2) [rule_format, of "Suc j"] that k by simp
      with i(1) k show "\<exists>i. match_heading (drop i cs) = Some t
              \<and> (\<forall>j<i. match_heading (drop j cs) = None)"
        by auto
    next
      assume "\<exists>i. match_heading (drop i cs) = Some t
              \<and> (\<forall>j<i. match_heading (drop j cs) = None)"
      then obtain k where k: "match_heading (drop k cs) = Some t"
        "\<forall>j<k. match_heading (drop j cs) = None" by blast
      have "match_heading (drop j (c # cs)) = None" if "j < Suc k" for j
        using that None k(2) by (cases j) simp_all
      with k(1) have "match_heading (drop (Suc k) (c # cs)) = Some t
          \<and> (\<forall>j<Suc k. match_heading (drop j (c # cs)) = None)"
        by simp
      then show "\<exists>i. match_heading (drop i (c # cs)) = Some t
              \<and> (\<forall>j<i. match_heading (drop j (c # cs)) = None)"
        by blast
    qed
    with None Cons show ?thesis by simp
  qed
qed

lemma match_heading_iff:
  "match_heading s = Some t
     \<longleftrightarrow> (\<exists>d attrs rest. s = ''<h'' @ [d] @ attrs @ ''>'' @ t @ rest
            \<and> d \<in> set ''123'' \<and> CHR ''>'' \<notin> set attrs \<and> close_tag_at rest
            \<and> CHR 0x0A \<notin> set t \<and> (\<forall>i<length t. \<not> close_tag_at (drop i (t @ rest))))"
proof -
  have "match_heading s = Some t
      \<longleftrightarrow> (\<exists>after. open_tag s = Some after \<and> lazy_inner after = Some t)"
    by (simp add: match_heading_def split: option.splits)
  also have "\<dots> \<longleftrightarrow> (\<exists>after d attrs rest. s = ''<h'' @ [d] @ attrs @ ''>'' @ after
            \<and> d \<in> set ''123'' \<and> CHR ''>'' \<notin> set attrs
            \<and> after = t @ rest \<and> close_tag_at rest
            \<and> CHR 0x0A \<notin> set t \<and> (\<forall>i<length t. \<not> close_tag_at (drop i after)))"
    unfolding open_tag_iff lazy_inner_iff by blast
  also have "\<dots> \<longleftrightarrow> (\<exists>d attrs rest. s = ''<h'' @ [d] @ attrs @ ''>'' @ t @ rest
            \<and> d \<in> set ''123'' \<and> CHR ''>'' \<notin> set attrs \<and> close_tag_at rest
            \<and> CHR 0x0A \<notin> set t \<and> (\<forall>i<length t. \<not> close_tag_at (drop i (t @ rest))))"
    by blast
  finally show ?thesis .
qed


lemmas eval_title = page_title_def match_heading_def open_tag_def close_tag_at_def newline_def
  path_stem_def path_name_def

text \<open>
  C6, as the claim states it, fails where the first heading is empty: \<open><h1></h1>\<close> is a
  heading whose text is empty, and the title is the file name, not the empty text. It
  also fails where the first heading runs over a line break: \<open>.\<close> does not match a line
  break, the search goes on, and the title comes from a later heading.
\<close>

theorem page_title_counterexample:
  "extract_title ''<h1></h1>'' = Some []
   \<and> page_title ''<h1></h1>'' [''c'', ''notes.md''] = ''notes''
   \<and> page_title (''<h1>a'' @ newline @ ''b</h1>'' @ newline @ ''<h2>c</h2>'')
         [''c'', ''notes.md''] = ''c''"
  by (simp add: eval_title)

text \<open>
  C6, amended: the page title is the text captured by the first match of the heading
  pattern when there is a match and that text is not empty, and the file name without its
  extension otherwise. A match is an opening tag \<open><h1\<close>, \<open><h2\<close> or \<open><h3\<close> up to its first
  \<open>>\<close>, then the captured text, which has no line break and is the shortest text a closing
  tag \<open></h1>\<close>, \<open></h2>\<close> or \<open></h3>\<close> follows; the first match is the one that starts
  leftmost.
\<close>

theorem page_title_spec:
  "page_title body md_path
     = (case extract_title body of
          None \<Rightarrow> path_stem md_path
        | Some t \<Rightarrow> if t = [] then path_stem md_path else t)
   \<and> (extract_title body = None \<longleftrightarrow> (\<forall>i. match_heading (drop i body) = None))
   \<and> (extract_title body = Some t
        \<longleftrightarrow> (\<exists>i. match_heading (drop i body) = Some t
                 \<and> (\<forall>j<i. match_heading (drop j body) = None)))
   \<and> (match_heading s = Some t
        \<longleftrightarrow> (\<exists>d attrs rest. s = ''<h'' @ [d] @ attrs @ ''>'' @ t @ rest
               \<and> d \<in> set ''123'' \<and> CHR ''>'' \<notin> set attrs \<and> close_tag_at rest
               \<and> CHR 0x0A \<notin> set t \<and> (\<forall>i<length t. \<not> close_tag_at (drop i (t @ rest)))))
   \<and> (close_tag_at s \<longleftrightarrow> (\<exists>d rest. s = ''</h'' @ [d] @ ''>'' @ rest \<and> d \<in> set ''123''))"
  using extract_title_None [of body] extract_title_Some [of body t] match_heading_iff [of s t]
    close_tag_at_iff [of s]
  by (simp only: page_title_def simp_thms)

theorem page_title_spec_witness:
  "page_title ''<p>x</p><h2 id=\"a\">Hello</h2><h1>B</h1>'' [''c'', ''n.md''] = ''Hello''
   \<and> (\<exists>i. match_heading (drop i ''<p>x</p><h2 id=\"a\">Hello</h2><h1>B</h1>'') = Some ''Hello''
          \<and> (\<forall>j<i. match_heading (drop j ''<p>x</p><h2 id=\"a\">Hello</h2><h1>B</h1>'') = None))
   \<and> page_title ''<p>no heading</p>'' [''c'', ''n.md''] = ''n''
   \<and> (\<forall>i. match_heading (drop i ''<p>no heading</p>'') = None)
   \<and> page_title ''<h1></h1>'' [''c'', ''n.md''] = ''n''"
proof -
  let ?b = "''<p>x</p><h2 id=\"a\">Hello</h2><h1>B</h1>''"
  have e1: "extract_title ?b = Some ''Hello''"
    by (simp add: eval_title)
  have e2: "extract_title ''<p>no heading</p>'' = None"
    by (simp add: eval_title)
  have e3: "extract_title ''<h1></h1>'' = Some []"
    by (simp add: eval_title)
  have "page_title ?b [''c'', ''n.md''] = ''Hello''"
    using page_title_spec [of ?b "[''c'', ''n.md'']", THEN conjunct1] e1 by simp
  moreover have "\<exists>i. match_heading (drop i ?b) = Some ''Hello''
          \<and> (\<forall>j<i. match_heading (drop j ?b) = None)"
    by (rule page_title_spec [of ?b _ "''Hello''", THEN conjunct2, THEN conjunct2, THEN conjunct1,
          THEN iffD1, OF e1])
  moreover have "page_title ''<p>no heading</p>'' [''c'', ''n.md''] = ''n''"
    using page_title_spec [of "''<p>no heading</p>''" "[''c'', ''n.md'']", THEN conjunct1] e2
    by (simp add: path_stem_def path_name_def)
  moreover have "\<forall>i. match_heading (drop i ''<p>no heading</p>'') = None"
    by (rule page_title_spec [of "''<p>no heading</p>''", THEN conjunct2, THEN conjunct1,
          THEN iffD1, OF e2])
  moreover have "page_title ''<h1></h1>'' [''c'', ''n.md''] = ''n''"
    using page_title_spec [of "''<h1></h1>''" "[''c'', ''n.md'']", THEN conjunct1] e3
    by (simp add: path_stem_def path_name_def)
  ultimately show ?thesis by blast
qed

end
